theory Spec2Isabelle
  imports Main "HOL-Library.Word" "HOL-Library.Log_Nat" "HOL-Library.Multiset"
begin

unbundle bit_operations_syntax

section \<open>NeuroCross: the crossword generation core\<close>

text \<open>
  A shallow embedding of the generation pipeline of the single source file
  \<^verbatim>\<open>neuro_cross_daily_neurology_crossword_prototype.jsx\<close>: the seeded generator
  \<^verbatim>\<open>mulberry32\<close>, \<^verbatim>\<open>shuffleInPlace\<close>, \<^verbatim>\<open>pickDailyWords\<close>, \<^verbatim>\<open>canPlace\<close>,
  \<^verbatim>\<open>placeWord\<close>, \<^verbatim>\<open>generateCrosswordFromWords\<close>, \<^verbatim>\<open>pruneIsolatedWords\<close>,
  \<^verbatim>\<open>scorePlacements\<close>, the retry loop of \<^verbatim>\<open>App\<close> and \<^verbatim>\<open>isSolved\<close>.

  JavaScript numbers that index the grid are modelled as \<open>int\<close> (a crossing column
  \<^verbatim>\<open>c - i\<close> can be negative), lengths and loop counters as \<open>nat\<close>, a string as a list
  of its UTF-16 code units (\<open>string\<close>), a grid cell \<^verbatim>\<open>string | null\<close> holding one
  letter as \<open>char option\<close>. Mutation of the grid and of the placement array is explicit
  state passing.
\<close>

subsection \<open>Seeded generator (Mulberry32)\<close>

text \<open>
  The closure variable \<^verbatim>\<open>t\<close> of \<^verbatim>\<open>mulberry32\<close> is a JavaScript number, that is an
  IEEE double: \<^verbatim>\<open>t += 0x6d2b79f5\<close> is a double addition and is never reduced modulo
  \<open>2^32\<close>. The state stays an integer; the sum of two such integers is exact below
  \<open>2^53\<close> and is rounded to 53 significant bits, ties to even, above.
  \<open>round_double\<close> is that rounding on non-negative integers.
  The bit operations and \<^verbatim>\<open>Math.imul\<close> first reduce their operands modulo \<open>2^32\<close>
  (\<open>word_of_int\<close>); \<^verbatim>\<open>r + Math.imul(..)\<close> is an exact sum of two 32-bit integers that
  the following \<^verbatim>\<open>^=\<close> reduces again, so it is the wrapping sum of two words.
\<close>

definition round_double :: "int \<Rightarrow> int" where
  "round_double x =
     (if x < 2 ^ 53 then x
      else let e = nat (bitlen x - 53);
               q = x div 2 ^ e;
               r = x mod 2 ^ e;
               h = 2 ^ (e - 1)
           in if r < h then q * 2 ^ e
              else if h < r then (q + 1) * 2 ^ e
              else if even q then q * 2 ^ e
              else (q + 1) * 2 ^ e)"

type_synonym rng = int

definition mulberry32 :: "int \<Rightarrow> rng" where
  "mulberry32 seed = seed mod 2 ^ 32"

definition mulberry32_out :: "32 word \<Rightarrow> 32 word" where
  "mulberry32_out w =
     (let r = (w XOR drop_bit 15 w) * (1 OR w);
          r' = r XOR (r + (r XOR drop_bit 7 r) * (61 OR r))
      in r' XOR drop_bit 14 r')"

text \<open>
  One call of the closure: the new state, and the numerator \<open>u\<close> of the returned float
  \<open>u / 2^32\<close> (the division of a 32-bit integer by \<open>4294967296\<close> is exact).
\<close>

definition rng_next :: "rng \<Rightarrow> 32 word \<times> rng" where
  "rng_next t = (let t' = round_double (t + 0x6d2b79f5)
                 in (mulberry32_out (word_of_int t'), t'))"

definition rng_float :: "32 word \<Rightarrow> real" where
  "rng_float u = real (unat u) / 4294967296"

fun rng_state :: "int \<Rightarrow> nat \<Rightarrow> rng" where
  "rng_state seed 0 = mulberry32 seed"
| "rng_state seed (Suc n) = snd (rng_next (rng_state seed n))"

definition rng_nth :: "int \<Rightarrow> nat \<Rightarrow> 32 word" where
  "rng_nth seed n = fst (rng_next (rng_state seed (n - 1)))"

text \<open>
  The Mulberry32 reference with a 32-bit unsigned state, following the specification's
  words: the state starts at the seed, every call adds \<open>0x6D2B79F5\<close> modulo \<open>2^32\<close>;
  then \<open>r = (t XOR (t >> 15)) * (t OR 1)\<close> and
  \<open>r = r XOR (r + ((r XOR (r >> 7)) * (r OR 61)))\<close>, both wrapping, and the numerator
  of the returned fraction is \<open>r XOR (r >> 14)\<close>.
\<close>

fun ref_state :: "32 word \<Rightarrow> nat \<Rightarrow> 32 word" where
  "ref_state seed 0 = seed"
| "ref_state seed (Suc n) = ref_state seed n + 0x6d2b79f5"

definition ref_out :: "32 word \<Rightarrow> 32 word" where
  "ref_out t =
     (let r = (t XOR drop_bit 15 t) * (t OR 1);
          r2 = r XOR (r + ((r XOR drop_bit 7 r) * (r OR 61)))
      in r2 XOR drop_bit 14 r2)"

definition ref_nth :: "32 word \<Rightarrow> nat \<Rightarrow> 32 word" where
  "ref_nth seed n = ref_out (ref_state seed n)"


subsection \<open>Fisher-Yates shuffle\<close>

text \<open>
  \<^verbatim>\<open>Math.floor(rng() * (i + 1))\<close> with \<^verbatim>\<open>rng() = u / 2^32\<close>: the product
  \<open>u * (i + 1) / 2^32\<close> is exact in a double as long as \<open>u * (i + 1) < 2^53\<close>, which
  holds for every array shorter than \<open>2^21\<close>; its floor is the integer quotient.
\<close>

definition rand_index :: "32 word \<Rightarrow> nat \<Rightarrow> nat" where
  "rand_index u i = nat (uint u * (int i + 1) div 4294967296)"

fun shuffle_loop :: "nat \<Rightarrow> 'a list \<Rightarrow> rng \<Rightarrow> 'a list \<times> rng" where
  "shuffle_loop 0 arr t = (arr, t)"
| "shuffle_loop (Suc k) arr t =
     (let (u, t') = rng_next t;
          j = rand_index u (Suc k)
      in shuffle_loop k (arr[Suc k := arr ! j, j := arr ! Suc k]) t')"

definition shuffleInPlace :: "'a list \<Rightarrow> rng \<Rightarrow> 'a list \<times> rng" where
  "shuffleInPlace arr t = shuffle_loop (length arr - 1) arr t"

subsection \<open>Words, directions, placements, grid\<close>

record entry =
  answer :: string
  clue :: string

datatype dir = ACROSS | DOWN

record placement = entry +
  row :: int
  col :: int
  dir :: dir
  number :: "nat option"

type_synonym cell = "char option"
type_synonym grid = "cell list list"

definition makeEmptyGrid :: "nat \<Rightarrow> grid" where
  "makeEmptyGrid sz = replicate sz (replicate sz None)"

text \<open>\<^verbatim>\<open>grid[r][c]\<close>, read where the source has checked the indices.\<close>

definition cell_at :: "'a list list \<Rightarrow> int \<Rightarrow> int \<Rightarrow> 'a" where
  "cell_at g r c = g ! nat r ! nat c"

text \<open>
  \<^verbatim>\<open>grid[r][c] = v\<close>. The source writes only inside the grid when the words are no
  longer than the grid is wide (lemmas below); a write beyond the end of a row would make
  JavaScript grow that row, which the list update does not do.
\<close>

definition cell_set :: "'a list list \<Rightarrow> int \<Rightarrow> int \<Rightarrow> 'a \<Rightarrow> 'a list list" where
  "cell_set g r c v = g[nat r := (g ! nat r)[nat c := v]]"

text \<open>The cell that offset \<open>i\<close> of a word covers: the two conditional expressions
  \<^verbatim>\<open>dir === ACROSS ? row : row + i\<close> and \<^verbatim>\<open>dir === ACROSS ? col + i : col\<close>.\<close>

definition cover_r :: "dir \<Rightarrow> int \<Rightarrow> nat \<Rightarrow> int" where
  "cover_r d r0 i = (if d = ACROSS then r0 else r0 + int i)"

definition cover_c :: "dir \<Rightarrow> int \<Rightarrow> nat \<Rightarrow> int" where
  "cover_c d c0 i = (if d = ACROSS then c0 + int i else c0)"

definition canPlace :: "string \<Rightarrow> int \<Rightarrow> int \<Rightarrow> dir \<Rightarrow> grid \<Rightarrow> bool" where
  "canPlace word r0 c0 d g =
     (let sz = int (length g); len = int (length word) in
      if d = ACROSS then
        if c0 < 0 \<or> c0 + len > sz \<or> r0 < 0 \<or> r0 \<ge> sz then False
        else if c0 - 1 \<ge> 0 \<and> cell_at g r0 (c0 - 1) \<noteq> None then False
        else if c0 + len < sz \<and> cell_at g r0 (c0 + len) \<noteq> None then False
        else list_all (\<lambda>i.
               let r = r0; c = c0 + int i; cell = cell_at g r c in
               if cell \<noteq> None \<and> cell \<noteq> Some (word ! i) then False
               else if cell = None then
                 if r - 1 \<ge> 0 \<and> cell_at g (r - 1) c \<noteq> None then False
                 else if r + 1 < sz \<and> cell_at g (r + 1) c \<noteq> None then False
                 else True
               else True) [0..<length word]
      else
        if r0 < 0 \<or> r0 + len > sz \<or> c0 < 0 \<or> c0 \<ge> sz then False
        else if r0 - 1 \<ge> 0 \<and> cell_at g (r0 - 1) c0 \<noteq> None then False
        else if r0 + len < sz \<and> cell_at g (r0 + len) c0 \<noteq> None then False
        else list_all (\<lambda>i.
               let r = r0 + int i; c = c0; cell = cell_at g r c in
               if cell \<noteq> None \<and> cell \<noteq> Some (word ! i) then False
               else if cell = None then
                 if c - 1 \<ge> 0 \<and> cell_at g r (c - 1) \<noteq> None then False
                 else if c + 1 < sz \<and> cell_at g r (c + 1) \<noteq> None then False
                 else True
               else True) [0..<length word])"

definition placeWord :: "string \<Rightarrow> int \<Rightarrow> int \<Rightarrow> dir \<Rightarrow> grid \<Rightarrow> grid" where
  "placeWord word r0 c0 d g =
     fold (\<lambda>i g'. cell_set g' (cover_r d r0 i) (cover_c d c0 i) (Some (word ! i)))
          [0..<length word] g"

subsection \<open>Word selection\<close>

text \<open>
  \<^verbatim>\<open>pool.sort(..)\<close> with the comparator \<^verbatim>\<open>|a.len - 7| - |b.len - 7|\<close>: the sort of an
  array is stable, and so is \<open>sort_key\<close>. The bank is a parameter (the source's
  \<^verbatim>\<open>BANK_LIMITED\<close> is one value of it). \<^verbatim>\<open>seen\<close> is the set of answers already chosen.
\<close>

fun pick_loop :: "entry list \<Rightarrow> entry list \<Rightarrow> string set \<Rightarrow> entry list" where
  "pick_loop [] chosen seen = chosen"
| "pick_loop (item # pool) chosen seen =
     (if length (answer item) < 3 \<or> length (answer item) > 13 then pick_loop pool chosen seen
      else if answer item \<in> seen then pick_loop pool chosen seen
      else pick_loop pool (chosen @ [item]) (insert (answer item) seen))"

definition pickDailyWords :: "entry list \<Rightarrow> rng \<Rightarrow> entry list" where
  "pickDailyWords bank t =
     (let pool = sort_key (\<lambda>a. \<bar>int (length (answer a)) - 7\<bar>) bank;
          (pool', t') = shuffleInPlace pool t
      in pick_loop pool' [] {})"

subsection \<open>Placing words\<close>

text \<open>\<^verbatim>\<open>Array.from(new Set(word.split("")))\<close>: a JavaScript set keeps the order of first
  insertion.\<close>

fun set_order :: "'a list \<Rightarrow> 'a list \<Rightarrow> 'a list" where
  "set_order seen [] = seen"
| "set_order seen (x # xs) = set_order (if x \<in> set seen then seen else seen @ [x]) xs"

definition findLetterPositions :: "nat \<Rightarrow> grid \<Rightarrow> char \<Rightarrow> (int \<times> int) list" where
  "findLetterPositions sz g L =
     concat (map (\<lambda>r. map (\<lambda>c. (int r, int c))
                          (filter (\<lambda>c. g ! r ! c = Some L) [0..<sz])) [0..<sz])"

text \<open>The three nested loops of the search for one word, innermost first. Each returns
  the start cell and direction of the first candidate that \<open>canPlace\<close> accepts.\<close>

fun try_positions :: "string \<Rightarrow> nat \<Rightarrow> grid \<Rightarrow> (int \<times> int) list \<Rightarrow> (int \<times> int \<times> dir) option" where
  "try_positions word i g [] = None"
| "try_positions word i g ((r, c) # ps) =
     (let acCol = c - int i in
      if canPlace word r acCol ACROSS g then Some (r, acCol, ACROSS)
      else let dnRow = r - int i in
        if canPlace word dnRow c DOWN g then Some (dnRow, c, DOWN)
        else try_positions word i g ps)"

fun try_idxs :: "string \<Rightarrow> grid \<Rightarrow> (int \<times> int) list \<Rightarrow> nat list \<Rightarrow> (int \<times> int \<times> dir) option" where
  "try_idxs word g positions [] = None"
| "try_idxs word g positions (i # idxs) =
     (case try_positions word i g positions of
        Some x \<Rightarrow> Some x
      | None \<Rightarrow> try_idxs word g positions idxs)"

fun try_letters :: "string \<Rightarrow> nat \<Rightarrow> grid \<Rightarrow> char list \<Rightarrow> rng \<Rightarrow> (int \<times> int \<times> dir) option \<times> rng" where
  "try_letters word sz g [] t = (None, t)"
| "try_letters word sz g (L # Ls) t =
     (let positions = findLetterPositions sz g L in
      if positions = [] then try_letters word sz g Ls t
      else let (idxs, t') = shuffleInPlace (filter (\<lambda>i. word ! i = L) [0..<length word]) t in
        case try_idxs word g positions idxs of
          Some x \<Rightarrow> (Some x, t')
        | None \<Rightarrow> try_letters word sz g Ls t')"

definition mk_placement :: "entry \<Rightarrow> int \<Rightarrow> int \<Rightarrow> dir \<Rightarrow> placement" where
  "mk_placement w r c d =
     \<lparr>answer = answer w, clue = clue w, row = r, col = c, dir = d, number = None\<rparr>"

text \<open>The body of \<^verbatim>\<open>for (const w of copy)\<close>: the state is the grid, the placements and
  the generator.\<close>

definition attempt_word :: "nat \<Rightarrow> entry \<Rightarrow> grid \<times> placement list \<times> rng \<Rightarrow> grid \<times> placement list \<times> rng" where
  "attempt_word sz w st =
     (case st of (g, ps, t) \<Rightarrow>
        let word = answer w;
            (crossLetters, t1) = shuffleInPlace (set_order [] word) t;
            (found, t2) = try_letters word sz g crossLetters t1
        in case found of
             None \<Rightarrow> (g, ps, t2)
           | Some (r, c, d) \<Rightarrow> (placeWord word r c d g, ps @ [mk_placement w r c d], t2))"

subsection \<open>Pruning and scoring\<close>

definition count_cells :: "nat \<Rightarrow> nat \<Rightarrow> placement list \<Rightarrow> nat list list" where
  "count_cells H W ps =
     fold (\<lambda>p cnt. fold (\<lambda>i cnt'.
             let r = cover_r (dir p) (row p) i; c = cover_c (dir p) (col p) i
             in cell_set cnt' r c (cell_at cnt' r c + 1)) [0..<length (answer p)] cnt)
          ps (replicate H (replicate W 0))"

definition crossed :: "nat list list \<Rightarrow> placement \<Rightarrow> bool" where
  "crossed counts p =
     list_ex (\<lambda>i. cell_at counts (cover_r (dir p) (row p) i) (cover_c (dir p) (col p) i) > 1)
             [0..<length (answer p)]"

definition pruneIsolatedWords :: "grid \<Rightarrow> placement list \<Rightarrow> grid \<times> placement list" where
  "pruneIsolatedWords g ps =
     (if length ps \<le> 1 then (g, ps)
      else let H = length g; W = length (g ! 0);
               counts = count_cells H W ps;
               keep = filter (crossed counts) ps
           in if length keep = length ps then (g, ps)
              else (fold (\<lambda>p g'. placeWord (answer p) (row p) (col p) (dir p) g') keep
                      (map (\<lambda>rw. replicate W None @ drop W rw) g),
                    keep))"

definition scorePlacements :: "grid \<Rightarrow> placement list \<Rightarrow> nat" where
  "scorePlacements g ps =
     (let H = length g; W = length (g ! 0);
          counts = count_cells H W ps
      in length (concat (map (\<lambda>r. filter (\<lambda>c. counts ! r ! c > 1) [0..<W]) [0..<H])))"

subsection \<open>Numbering, bounding box, one trial\<close>

record box =
  minR :: int
  maxR :: int
  minC :: int
  maxC :: int

record puzzle =
  grid :: grid
  placements :: "placement list"
  numbers :: "nat option list list"
  bounds :: box

definition scan :: "nat \<Rightarrow> (int \<times> int) list" where
  "scan sz = concat (map (\<lambda>r. map (\<lambda>c. (int r, int c)) [0..<sz]) [0..<sz])"

definition isLetter :: "nat \<Rightarrow> grid \<Rightarrow> int \<Rightarrow> int \<Rightarrow> bool" where
  "isLetter sz g r c = (r \<ge> 0 \<and> r < int sz \<and> c \<ge> 0 \<and> c < int sz \<and> cell_at g r c \<noteq> None)"

definition startsAcross :: "nat \<Rightarrow> grid \<Rightarrow> int \<Rightarrow> int \<Rightarrow> bool" where
  "startsAcross sz g r c = (\<not> isLetter sz g r (c - 1) \<and> isLetter sz g r (c + 0) \<and> isLetter sz g r (c + 1))"

definition startsDown :: "nat \<Rightarrow> grid \<Rightarrow> int \<Rightarrow> int \<Rightarrow> bool" where
  "startsDown sz g r c = (\<not> isLetter sz g (r - 1) c \<and> isLetter sz g r (c + 0) \<and> isLetter sz g (r + 1) c)"

definition number_step :: "nat \<Rightarrow> grid \<Rightarrow> int \<times> int \<Rightarrow> nat \<times> nat option list list \<Rightarrow> nat \<times> nat option list list" where
  "number_step sz g rc st =
     (case rc of (r, c) \<Rightarrow> case st of (num, nums) \<Rightarrow>
        if \<not> isLetter sz g r c then (num, nums)
        else if startsAcross sz g r c \<or> startsDown sz g r c
             then (num + 1, cell_set nums r c (Some num))
             else (num, nums))"

definition compute_numbers :: "nat \<Rightarrow> grid \<Rightarrow> nat option list list" where
  "compute_numbers sz g =
     snd (fold (number_step sz g) (scan sz) (1, replicate sz (replicate sz None)))"

definition bounds_step :: "grid \<Rightarrow> int \<times> int \<Rightarrow> box \<Rightarrow> box" where
  "bounds_step g rc b =
     (case rc of (r, c) \<Rightarrow>
        if cell_at g r c \<noteq> None then
          \<lparr>minR = (if r < minR b then r else minR b),
           maxR = (if r > maxR b then r else maxR b),
           minC = (if c < minC b then c else minC b),
           maxC = (if c > maxC b then c else maxC b)\<rparr>
        else b)"

definition compute_bounds :: "nat \<Rightarrow> grid \<Rightarrow> box" where
  "compute_bounds sz g =
     (let b = fold (bounds_step g) (scan sz)
                \<lparr>minR = int sz, maxR = - 1, minC = int sz, maxC = - 1\<rparr>
      in if maxR b = - 1
         then \<lparr>minR = 0, maxR = int sz - 1, minC = 0, maxC = int sz - 1\<rparr>
         else b)"

definition generateCrosswordFromWords :: "entry list \<Rightarrow> int \<Rightarrow> nat \<Rightarrow> puzzle" where
  "generateCrosswordFromWords ws seed sz =
     (let t0 = mulberry32 seed;
          g0 = makeEmptyGrid sz;
          (copy, t1) = shuffleInPlace ws t0
      in case copy of
           [] \<Rightarrow> \<lparr>grid = g0, placements = [], numbers = [],
                  bounds = \<lparr>minR = 0, maxR = int sz - 1, minC = 0, maxC = int sz - 1\<rparr>\<rparr>
         | first # rest \<Rightarrow>
             let mid = int (sz div 2);
                 len = length (answer first);
                 startCol = max 0 (min (int sz - int len) (mid - int (len div 2)));
                 g1 = placeWord (answer first) mid startCol ACROSS g0;
                 ps1 = [mk_placement first mid startCol ACROSS];
                 (g2, ps2, t2) = fold (attempt_word sz) rest (g1, ps1, t1);
                 (g3, ps3) = pruneIsolatedWords g2 ps2;
                 nums = compute_numbers sz g3;
                 ps4 = map (\<lambda>p. p\<lparr>number := cell_at nums (row p) (col p)\<rparr>) ps3
             in \<lparr>grid = g3, placements = ps4, numbers = nums, bounds = compute_bounds sz g3\<rparr>)"

subsection \<open>The retry loop of the application\<close>

text \<open>
  The loop of \<^verbatim>\<open>App\<close> over \<^verbatim>\<open>salt\<close>, with the grid size and the constants
  \<^verbatim>\<open>MIN_WORDS\<close> and \<^verbatim>\<open>MAX_SALTS\<close> as parameters; \<open>best\<close> is \<^verbatim>\<open>null\<close> or the record
  \<^verbatim>\<open>{ ...g, score, salt }\<close>.
\<close>

function orch_loop :: "entry list \<Rightarrow> int \<Rightarrow> nat \<Rightarrow> nat \<Rightarrow> nat \<Rightarrow> nat \<Rightarrow> (puzzle \<times> nat \<times> nat) option \<Rightarrow> puzzle" where
  "orch_loop ws seed sz minW maxS salt best =
     (if salt < maxS then
        let g = generateCrosswordFromWords ws (seed + int salt) sz;
            placedCount = length (placements g);
            crosses = scorePlacements (grid g) (placements g);
            score = placedCount * 10 + crosses;
            best' = (case best of
                       None \<Rightarrow> Some (g, score, salt)
                     | Some (bg, bscore, bsalt) \<Rightarrow>
                         if score > bscore then Some (g, score, salt) else best)
        in if placedCount \<ge> minW then g
           else orch_loop ws seed sz minW maxS (salt + 1) best'
      else (case best of
              Some (bg, bscore, bsalt) \<Rightarrow> bg
            | None \<Rightarrow> generateCrosswordFromWords ws seed sz))"
  by pat_completeness auto
termination
  by (relation "measure (\<lambda>(ws, seed, sz, minW, maxS, salt, best). maxS - salt)") auto

definition orchestrate :: "entry list \<Rightarrow> int \<Rightarrow> nat \<Rightarrow> nat \<Rightarrow> nat \<Rightarrow> puzzle" where
  "orchestrate ws seed sz minW maxS = orch_loop ws seed sz minW maxS 0 None"

definition MIN_WORDS :: nat where "MIN_WORDS = 8"
definition MAX_SALTS :: nat where "MAX_SALTS = 80"

definition app_puzzle :: "entry list \<Rightarrow> int \<Rightarrow> puzzle" where
  "app_puzzle bank seed =
     orchestrate (pickDailyWords bank (mulberry32 seed)) seed 13 MIN_WORDS MAX_SALTS"

subsection \<open>Solved check\<close>

text \<open>
  \<^verbatim>\<open>user[r]?.[c] || ""\<close>: a missing row, a missing cell, \<^verbatim>\<open>null\<close> and the empty string
  all give the empty string. Cells of both grids are \<^verbatim>\<open>string | null\<close>.
\<close>

definition user_cell :: "string option list list \<Rightarrow> nat \<Rightarrow> nat \<Rightarrow> string" where
  "user_cell user r c =
     (if r < length user then
        if c < length (user ! r) then (case user ! r ! c of None \<Rightarrow> [] | Some s \<Rightarrow> s) else []
      else [])"

definition isSolved :: "string option list list \<Rightarrow> string option list list \<Rightarrow> bool" where
  "isSolved user sol =
     list_all (\<lambda>r. list_all (\<lambda>c.
         case sol ! r ! c of
           None \<Rightarrow> True
         | Some s \<Rightarrow> \<not> (user_cell user r c \<noteq> s)) [0..<length (sol ! r)]) [0..<length sol]"

subsection \<open>Counting the calls of a generator\<close>

text \<open>\<open>drawn t k\<close>: the state of a closure in state \<open>t\<close> after \<open>k\<close> more calls.\<close>

definition drawn :: "rng \<Rightarrow> nat \<Rightarrow> rng" where
  "drawn t k = ((\<lambda>s. snd (rng_next s)) ^^ k) t"

subsection \<open>The solved check as the specification words it\<close>

text \<open>
  The specification asks for a comparison that ignores case ("case-insensitive
  uppercase"): both letters are brought to upper case before they are compared.
  \<open>upper_char\<close> is \<^verbatim>\<open>toUpperCase\<close> on the ASCII letters.
\<close>

definition upper_char :: "char \<Rightarrow> char" where
  "upper_char ch =
     (let n = (of_char ch :: nat) in if 97 \<le> n \<and> n \<le> 122 then char_of (n - 32) else ch)"

definition spec_isSolved :: "string option list list \<Rightarrow> string option list list \<Rightarrow> bool" where
  "spec_isSolved user sol =
     list_all (\<lambda>r. list_all (\<lambda>c.
         case sol ! r ! c of
           None \<Rightarrow> True
         | Some s \<Rightarrow> map upper_char (user_cell user r c) = map upper_char s)
       [0..<length (sol ! r)]) [0..<length sol]"

subsection \<open>Reading a grid from outside\<close>

text \<open>
  \<open>square g S\<close>: the grid has \<open>S\<close> rows of \<open>S\<close> cells. \<open>look g r c\<close> is the content of
  the cell \<open>(r, c)\<close> for any integers \<open>r\<close> and \<open>c\<close>: \<open>None\<close> when the cell is empty
  or lies off the grid. \<open>axis_r\<close>, \<open>axis_c\<close> move along the axis of a direction (offset
  \<open>- 1\<close> is the cell before the start), \<open>side_r\<close>, \<open>side_c\<close> across it.
\<close>

definition square :: "'a list list \<Rightarrow> nat \<Rightarrow> bool" where
  "square g S = (length g = S \<and> (\<forall>rw\<in>set g. length rw = S))"

definition in_grid :: "nat \<Rightarrow> int \<Rightarrow> int \<Rightarrow> bool" where
  "in_grid S r c = (0 \<le> r \<and> r < int S \<and> 0 \<le> c \<and> c < int S)"

definition look :: "'a option list list \<Rightarrow> int \<Rightarrow> int \<Rightarrow> 'a option" where
  "look g r c =
     (if 0 \<le> r \<and> r < int (length g) \<and> 0 \<le> c \<and> c < int (length (g ! nat r))
      then cell_at g r c else None)"

definition axis_r :: "dir \<Rightarrow> int \<Rightarrow> int \<Rightarrow> int" where
  "axis_r d r0 k = (if d = ACROSS then r0 else r0 + k)"

definition axis_c :: "dir \<Rightarrow> int \<Rightarrow> int \<Rightarrow> int" where
  "axis_c d c0 k = (if d = ACROSS then c0 + k else c0)"

definition side_r :: "dir \<Rightarrow> int \<Rightarrow> int \<Rightarrow> int" where
  "side_r d r k = (if d = ACROSS then r + k else r)"

definition side_c :: "dir \<Rightarrow> int \<Rightarrow> int \<Rightarrow> int" where
  "side_c d c k = (if d = ACROSS then c else c + k)"

subsection \<open>Word selection as the specification words it\<close>

text \<open>
  The sort key \<open>|length - 7|\<close>, the length filter \<open>[3,13]\<close>, and the removal of duplicate
  answers in which the first occurrence wins: an entry is kept and every later entry with
  the same answer is dropped.
\<close>

definition length_key :: "entry \<Rightarrow> int" where
  "length_key a = \<bar>int (length (answer a)) - 7\<bar>"

definition len_ok :: "entry \<Rightarrow> bool" where
  "len_ok a = (3 \<le> length (answer a) \<and> length (answer a) \<le> 13)"

fun first_by_answer :: "entry list \<Rightarrow> entry list" where
  "first_by_answer [] = []"
| "first_by_answer (x # xs) = x # first_by_answer (filter (\<lambda>y. answer y \<noteq> answer x) xs)"

text \<open>
  The Fisher-Yates shuffle as the specification words it: for \<open>i\<close> from the last index
  down to 1, swap element \<open>i\<close> with element \<open>floor (rng() * (i + 1))\<close>, where \<open>rng()\<close>
  is the next fraction of the generator.
\<close>

definition swap_at :: "'a list \<Rightarrow> nat \<Rightarrow> nat \<Rightarrow> 'a list" where
  "swap_at arr i j = arr[i := arr ! j, j := arr ! i]"

definition fisher_yates_step :: "nat \<Rightarrow> 'a list \<times> rng \<Rightarrow> 'a list \<times> rng" where
  "fisher_yates_step i s =
     (case s of (arr, t) \<Rightarrow>
        case rng_next t of (u, t') \<Rightarrow>
          (swap_at arr i (nat \<lfloor>rng_float u * real (i + 1)\<rfloor>), t'))"

definition fisher_yates :: "'a list \<Rightarrow> rng \<Rightarrow> 'a list \<times> rng" where
  "fisher_yates arr t = fold fisher_yates_step (rev [1..<length arr]) (arr, t)"

subsection \<open>Trials and their quality\<close>

text \<open>
  The trial of a salt, its placed-word count and its quality
  \<open>placedCount * 10 + intersectionCount\<close>. \<open>best_upto n b\<close>: among the salts below
  \<open>n\<close>, salt \<open>b\<close> has the highest quality and is the earliest salt that has it.
\<close>

definition trial :: "entry list \<Rightarrow> int \<Rightarrow> nat \<Rightarrow> nat \<Rightarrow> puzzle" where
  "trial ws seed sz salt = generateCrosswordFromWords ws (seed + int salt) sz"

definition placedCount :: "entry list \<Rightarrow> int \<Rightarrow> nat \<Rightarrow> nat \<Rightarrow> nat" where
  "placedCount ws seed sz salt = length (placements (trial ws seed sz salt))"

definition quality :: "entry list \<Rightarrow> int \<Rightarrow> nat \<Rightarrow> nat \<Rightarrow> nat" where
  "quality ws seed sz salt =
     placedCount ws seed sz salt * 10
     + scorePlacements (grid (trial ws seed sz salt)) (placements (trial ws seed sz salt))"

definition best_upto :: "entry list \<Rightarrow> int \<Rightarrow> nat \<Rightarrow> nat \<Rightarrow> nat \<Rightarrow> bool" where
  "best_upto ws seed sz n b =
     (b < n \<and> (\<forall>s<n. quality ws seed sz s \<le> quality ws seed sz b)
            \<and> (\<forall>s<b. quality ws seed sz s < quality ws seed sz b))"

subsection \<open>The search for one word as a list of candidates\<close>

text \<open>
  The candidates of a word in the order in which the loops of the source reach them.
  For one index \<open>i\<close> of the word and the occurrences of a letter on the grid, each
  occurrence \<open>(r, c)\<close> gives the ACROSS start \<open>(r, c - i)\<close> and then the DOWN start
  \<open>(r - i, c)\<close>. \<open>search_plan\<close> lists the letters that occur on the grid, each with its
  shuffled indices, drawing from the generator as the loops do when no candidate is
  accepted.
\<close>

definition cands_of :: "nat \<Rightarrow> (int \<times> int) list \<Rightarrow> (int \<times> int \<times> dir) list" where
  "cands_of i positions =
     concat (map (\<lambda>(r, c). [(r, c - int i, ACROSS), (r - int i, c, DOWN)]) positions)"

definition letter_cands :: "(int \<times> int) list \<Rightarrow> nat list \<Rightarrow> (int \<times> int \<times> dir) list" where
  "letter_cands positions idxs = concat (map (\<lambda>i. cands_of i positions) idxs)"

fun search_plan :: "string \<Rightarrow> nat \<Rightarrow> grid \<Rightarrow> char list \<Rightarrow> rng \<Rightarrow> (char \<times> nat list) list" where
  "search_plan word sz g [] t = []"
| "search_plan word sz g (L # Ls) t =
     (if findLetterPositions sz g L = [] then search_plan word sz g Ls t
      else let (idxs, t') = shuffleInPlace (filter (\<lambda>i. word ! i = L) [0..<length word]) t
           in (L, idxs) # search_plan word sz g Ls t')"

definition word_cands :: "nat \<Rightarrow> string \<Rightarrow> grid \<Rightarrow> rng \<Rightarrow> (int \<times> int \<times> dir) list" where
  "word_cands sz word g t =
     (let (crossLetters, t1) = shuffleInPlace (set_order [] word) t
      in concat (map (\<lambda>(L, idxs). letter_cands (findLetterPositions sz g L) idxs)
                     (search_plan word sz g crossLetters t1)))"

definition accepts :: "string \<Rightarrow> grid \<Rightarrow> int \<times> int \<times> dir \<Rightarrow> bool" where
  "accepts word g cand = (case cand of (r, c, d) \<Rightarrow> canPlace word r c d g)"

subsection \<open>The search in the order the specification words it\<close>

text \<open>
  The specification nests the loops the other way round: for each letter, for each
  occurrence of the letter on the grid, every index of the letter in the word. These
  definitions differ from the ones of the source in that nesting only.
\<close>

fun claimed_at :: "string \<Rightarrow> grid \<Rightarrow> int \<Rightarrow> int \<Rightarrow> nat list \<Rightarrow> (int \<times> int \<times> dir) option" where
  "claimed_at word g r c [] = None"
| "claimed_at word g r c (i # idxs) =
     (if canPlace word r (c - int i) ACROSS g then Some (r, c - int i, ACROSS)
      else if canPlace word (r - int i) c DOWN g then Some (r - int i, c, DOWN)
      else claimed_at word g r c idxs)"

fun claimed_positions :: "string \<Rightarrow> grid \<Rightarrow> nat list \<Rightarrow> (int \<times> int) list \<Rightarrow> (int \<times> int \<times> dir) option" where
  "claimed_positions word g idxs [] = None"
| "claimed_positions word g idxs ((r, c) # ps) =
     (case claimed_at word g r c idxs of
        Some x \<Rightarrow> Some x
      | None \<Rightarrow> claimed_positions word g idxs ps)"

fun claimed_letters :: "string \<Rightarrow> nat \<Rightarrow> grid \<Rightarrow> char list \<Rightarrow> rng \<Rightarrow> (int \<times> int \<times> dir) option \<times> rng" where
  "claimed_letters word sz g [] t = (None, t)"
| "claimed_letters word sz g (L # Ls) t =
     (let positions = findLetterPositions sz g L in
      if positions = [] then claimed_letters word sz g Ls t
      else let (idxs, t') = shuffleInPlace (filter (\<lambda>i. word ! i = L) [0..<length word]) t in
        case claimed_positions word g idxs positions of
          Some x \<Rightarrow> (Some x, t')
        | None \<Rightarrow> claimed_letters word sz g Ls t')"

definition claimed_attempt :: "nat \<Rightarrow> entry \<Rightarrow> grid \<times> placement list \<times> rng \<Rightarrow> grid \<times> placement list \<times> rng" where
  "claimed_attempt sz w st =
     (case st of (g, ps, t) \<Rightarrow>
        let word = answer w;
            (crossLetters, t1) = shuffleInPlace (set_order [] word) t;
            (found, t2) = claimed_letters word sz g crossLetters t1
        in case found of
             None \<Rightarrow> (g, ps, t2)
           | Some (r, c, d) \<Rightarrow> (placeWord word r c d g, ps @ [mk_placement w r c d], t2))"

definition claimed_generate :: "entry list \<Rightarrow> int \<Rightarrow> nat \<Rightarrow> puzzle" where
  "claimed_generate ws seed sz =
     (let t0 = mulberry32 seed;
          g0 = makeEmptyGrid sz;
          (copy, t1) = shuffleInPlace ws t0
      in case copy of
           [] \<Rightarrow> \<lparr>grid = g0, placements = [], numbers = [],
                  bounds = \<lparr>minR = 0, maxR = int sz - 1, minC = 0, maxC = int sz - 1\<rparr>\<rparr>
         | first # rest \<Rightarrow>
             let mid = int (sz div 2);
                 len = length (answer first);
                 startCol = max 0 (min (int sz - int len) (mid - int (len div 2)));
                 g1 = placeWord (answer first) mid startCol ACROSS g0;
                 ps1 = [mk_placement first mid startCol ACROSS];
                 (g2, ps2, t2) = fold (claimed_attempt sz) rest (g1, ps1, t1);
                 (g3, ps3) = pruneIsolatedWords g2 ps2;
                 nums = compute_numbers sz g3;
                 ps4 = map (\<lambda>p. p\<lparr>number := cell_at nums (row p) (col p)\<rparr>) ps3
             in \<lparr>grid = g3, placements = ps4, numbers = nums, bounds = compute_bounds sz g3\<rparr>)"

subsection \<open>Invariants of a trial\<close>

text \<open>
  \<open>covers p r c\<close>: the placement \<open>p\<close> covers the cell \<open>(r, c)\<close>. A placement list is
  \<open>inb\<close> when every covered cell is inside the grid, \<open>consistent\<close> with a grid when
  every covered cell holds the placement's letter, and the grid is \<open>covered\<close> when every
  letter on it belongs to a placement. Two placements \<open>share\<close> a cell when both cover it;
  a list is \<open>interlocked\<close> when every entry shares a cell with another entry.
\<close>

definition covers :: "placement \<Rightarrow> int \<Rightarrow> int \<Rightarrow> bool" where
  "covers p r c =
     (\<exists>i<length (answer p). r = cover_r (dir p) (row p) i \<and> c = cover_c (dir p) (col p) i)"

definition inb :: "nat \<Rightarrow> placement list \<Rightarrow> bool" where
  "inb S ps =
     (\<forall>p\<in>set ps. \<forall>i<length (answer p).
        in_grid S (cover_r (dir p) (row p) i) (cover_c (dir p) (col p) i))"

definition consistent :: "grid \<Rightarrow> placement list \<Rightarrow> bool" where
  "consistent g ps =
     (\<forall>p\<in>set ps. \<forall>i<length (answer p).
        look g (cover_r (dir p) (row p) i) (cover_c (dir p) (col p) i) = Some (answer p ! i))"

definition covered :: "grid \<Rightarrow> placement list \<Rightarrow> bool" where
  "covered g ps = (\<forall>r c. look g r c \<noteq> None \<longrightarrow> (\<exists>p\<in>set ps. covers p r c))"

definition shares :: "placement \<Rightarrow> placement \<Rightarrow> bool" where
  "shares p q = (\<exists>r c. covers p r c \<and> covers q r c)"

definition interlocked :: "placement list \<Rightarrow> bool" where
  "interlocked ps = (\<forall>i<length ps. \<exists>j<length ps. j \<noteq> i \<and> shares (ps ! i) (ps ! j))"

text \<open>The words fit the grid: the grid has at least one row and no answer is longer than
  the grid is wide. The word selection guarantees it for the 13 by 13 grid.\<close>

definition fits :: "nat \<Rightarrow> entry list \<Rightarrow> bool" where
  "fits sz ws = (0 < sz \<and> (\<forall>w\<in>set ws. length (answer w) \<le> sz))"

text \<open>The invariant of the placement loop, and the interlock of two or more placements.\<close>

definition trial_inv :: "nat \<Rightarrow> grid \<Rightarrow> placement list \<Rightarrow> bool" where
  "trial_inv S g ps = (square g S \<and> inb S ps \<and> consistent g ps \<and> covered g ps)"

definition linked :: "placement list \<Rightarrow> bool" where
  "linked ps = (1 < length ps \<longrightarrow> interlocked ps)"

subsection \<open>The score of a trial as the specification words it\<close>

text \<open>
  \<open>intersectionCount\<close>: the number of cells of the grid that are covered by more than
  one placement.
\<close>

definition intersectionCount :: "nat \<Rightarrow> placement list \<Rightarrow> nat" where
  "intersectionCount sz ps =
     card {(r, c). in_grid sz r c \<and> 1 < length (filter (\<lambda>p. covers p r c) ps)}"

subsection \<open>Starts of letter runs\<close>

text \<open>
  A cell starts an across run of two or more letters when it holds a letter, the cell to
  its left is empty or off the grid, and the cell to its right holds a letter; a down run
  likewise with the cells above and below.
\<close>

definition is_start :: "grid \<Rightarrow> int \<Rightarrow> int \<Rightarrow> bool" where
  "is_start g r c =
     (look g r c \<noteq> None \<and>
      ((look g r (c - 1) = None \<and> look g r (c + 1) \<noteq> None) \<or>
       (look g (r - 1) c = None \<and> look g (r + 1) c \<noteq> None)))"

definition start_cell :: "grid \<Rightarrow> int \<times> int \<Rightarrow> bool" where
  "start_cell g rc = (case rc of (r, c) \<Rightarrow> is_start g r c)"

subsection \<open>Maximal runs of letters\<close>

text \<open>
  \<open>seg_run F a b\<close>: on a line of cells \<open>F\<close>, the cells \<open>a, \<dots>, b\<close> are a maximal run of
  two or more letters. \<open>hrun g r c1 c2\<close> is such a run in row \<open>r\<close> from column \<open>c1\<close> to
  column \<open>c2\<close>, \<open>vrun g c r1 r2\<close> one in column \<open>c\<close> from row \<open>r1\<close> to row \<open>r2\<close>. In
  \<open>runs_placed\<close> every horizontal run is the span of an ACROSS placement and every
  vertical run the span of a DOWN placement.
\<close>

definition seg_run :: "(int \<Rightarrow> 'a option) \<Rightarrow> int \<Rightarrow> int \<Rightarrow> bool" where
  "seg_run F a b =
     (a < b \<and> (\<forall>k. a \<le> k \<and> k \<le> b \<longrightarrow> F k \<noteq> None) \<and> F (a - 1) = None \<and> F (b + 1) = None)"

definition hrun :: "grid \<Rightarrow> int \<Rightarrow> int \<Rightarrow> int \<Rightarrow> bool" where
  "hrun g r c1 c2 = seg_run (\<lambda>c. look g r c) c1 c2"

definition vrun :: "grid \<Rightarrow> int \<Rightarrow> int \<Rightarrow> int \<Rightarrow> bool" where
  "vrun g c r1 r2 = seg_run (\<lambda>r. look g r c) r1 r2"

definition runs_placed :: "grid \<Rightarrow> placement list \<Rightarrow> bool" where
  "runs_placed g ps =
     ((\<forall>r c1 c2. hrun g r c1 c2 \<longrightarrow>
         (\<exists>p\<in>set ps. dir p = ACROSS \<and> row p = r \<and> col p = c1
                      \<and> int (length (answer p)) = c2 - c1 + 1))
    \<and> (\<forall>c r1 r2. vrun g c r1 r2 \<longrightarrow>
         (\<exists>p\<in>set ps. dir p = DOWN \<and> col p = c \<and> row p = r1
                      \<and> int (length (answer p)) = r2 - r1 + 1)))"

section \<open>Verified properties\<close>

subsection \<open>isSolved\<close>

lemma isSolved_iff:
  "isSolved user sol \<longleftrightarrow>
     (\<forall>r<length sol. \<forall>c<length (sol ! r). \<forall>s. sol ! r ! c = Some s \<longrightarrow> user_cell user r c = s)"
  by (auto simp: isSolved_def list_all_iff split: option.splits)

text \<open>
  Claim C9, as the code has it. \<open>isSolved\<close> is true exactly when every solution cell
  that holds a string is matched by the identical string in the player grid; the
  comparison is the strict \<^verbatim>\<open>!==\<close> on strings, so it distinguishes case. Solution
  cells that are \<^verbatim>\<open>null\<close> are ignored: two player grids that agree over the solution's
  letter cells get the same answer. A player grid that is empty everywhere is not solved
  when the solution holds at least one letter.
\<close>

theorem isSolved_exact:
  "(isSolved user sol \<longleftrightarrow>
      (\<forall>r<length sol. \<forall>c<length (sol ! r). \<forall>s. sol ! r ! c = Some s \<longrightarrow> user_cell user r c = s))
   \<and> ((\<forall>r<length sol. \<forall>c<length (sol ! r).
          sol ! r ! c \<noteq> None \<longrightarrow> user_cell user' r c = user_cell user r c)
        \<longrightarrow> isSolved user' sol = isSolved user sol)
   \<and> ((\<forall>r c. user_cell user r c = []) \<and>
        (\<exists>r<length sol. \<exists>c<length (sol ! r). \<exists>s. sol ! r ! c = Some s \<and> s \<noteq> [])
        \<longrightarrow> \<not> isSolved user sol)"
proof (intro conjI impI)
  show "isSolved user sol \<longleftrightarrow>
      (\<forall>r<length sol. \<forall>c<length (sol ! r). \<forall>s. sol ! r ! c = Some s \<longrightarrow> user_cell user r c = s)"
    by (rule isSolved_iff)
next
  assume "\<forall>r<length sol. \<forall>c<length (sol ! r).
            sol ! r ! c \<noteq> None \<longrightarrow> user_cell user' r c = user_cell user r c"
  then show "isSolved user' sol = isSolved user sol"
    unfolding isSolved_iff by (metis option.distinct(1))
next
  assume h: "(\<forall>r c. user_cell user r c = []) \<and>
        (\<exists>r<length sol. \<exists>c<length (sol ! r). \<exists>s. sol ! r ! c = Some s \<and> s \<noteq> [])"
  then obtain r c s where rc: "r < length sol" "c < length (sol ! r)" "sol ! r ! c = Some s" "s \<noteq> []"
    by blast
  from h have "user_cell user r c = []" by blast
  with rc show "\<not> isSolved user sol"
    unfolding isSolved_iff by metis
qed

theorem isSolved_exact_witness:
  "isSolved [[Some ''A'', Some ''x'']] [[Some ''A'', None]]
   \<and> isSolved [[Some ''A'', Some ''x'']] [[Some ''A'', None]]
       = isSolved [[Some ''A'', None]] [[Some ''A'', None]]
   \<and> \<not> isSolved [[Some [], None]] [[Some ''A'', None]]"
proof -
  let ?S = "[[Some ''A'', None]] :: string option list list"
  let ?U = "[[Some ''A'', None]] :: string option list list"
  let ?U' = "[[Some ''A'', Some ''x'']] :: string option list list"
  let ?E = "[[Some [], None]] :: string option list list"
  have a: "\<forall>r<length ?S. \<forall>c<length (?S ! r). \<forall>s. ?S ! r ! c = Some s \<longrightarrow> user_cell ?U' r c = s"
    by (simp add: user_cell_def less_Suc_eq)
  have b: "\<forall>r<length ?S. \<forall>c<length (?S ! r).
             ?S ! r ! c \<noteq> None \<longrightarrow> user_cell ?U' r c = user_cell ?U r c"
    by (simp add: user_cell_def less_Suc_eq)
  have c: "(\<forall>r c. user_cell ?E r c = []) \<and>
        (\<exists>r<length ?S. \<exists>c<length (?S ! r). \<exists>s. ?S ! r ! c = Some s \<and> s \<noteq> [])"
    by (auto simp: user_cell_def less_Suc_eq nth_Cons split: nat.splits option.splits)
  from isSolved_exact[of ?U' ?S ?U'] a have 1: "isSolved ?U' ?S" by blast
  from isSolved_exact[of ?U ?S ?U'] b have 2: "isSolved ?U' ?S = isSolved ?U ?S" by blast
  from isSolved_exact[of ?E ?S ?E] c have 3: "\<not> isSolved ?E ?S" by blast
  from 1 2 3 show ?thesis by blast
qed

text \<open>
  Claim C9 as stated fails: the player's lower-case \<open>a\<close> equals the solution's \<open>A\<close> when
  case is ignored, so the claimed check accepts the grid, and \<open>isSolved\<close> rejects it.
\<close>

theorem isSolved_case_counterexample:
  "spec_isSolved [[Some ''a'']] [[Some ''A'']] \<and> \<not> isSolved [[Some ''a'']] [[Some ''A'']]"
  by code_simp

subsection \<open>canPlace\<close>

lemma square_row: "square g S \<Longrightarrow> 0 \<le> r \<Longrightarrow> r < int S \<Longrightarrow> length (g ! nat r) = S"
  by (auto simp: square_def)

lemma look_in: "square g S \<Longrightarrow> in_grid S r c \<Longrightarrow> look g r c = cell_at g r c"
  by (auto simp: look_def in_grid_def square_def)

lemma look_out: "square g S \<Longrightarrow> \<not> in_grid S r c \<Longrightarrow> look g r c = None"
  using square_row[of g S r] by (auto simp: look_def in_grid_def square_def)

lemma guard_look:
  assumes "square g S" "P \<longleftrightarrow> in_grid S r c"
  shows "\<not> (P \<and> cell_at g r c \<noteq> None) \<longleftrightarrow> look g r c = None"
  using assms look_in[of g S r c] look_out[of g S r c] by auto

lemma canPlace_across:
  assumes sq: "square g S" and ne: "word \<noteq> []"
  shows "canPlace word r0 c0 ACROSS g \<longleftrightarrow>
     (\<forall>i<length word. in_grid S r0 (c0 + int i))
   \<and> look g r0 (c0 - 1) = None
   \<and> look g r0 (c0 + int (length word)) = None
   \<and> (\<forall>i<length word.
         look g r0 (c0 + int i) = Some (word ! i)
       \<or> (look g r0 (c0 + int i) = None
          \<and> look g (r0 - 1) (c0 + int i) = None \<and> look g (r0 + 1) (c0 + int i) = None))"
proof -
  let ?n = "length word"
  have len: "length g = S" using sq by (simp add: square_def)
  have n0: "0 < ?n" using ne by simp
  let ?B = "0 \<le> c0 \<and> c0 + int ?n \<le> int S \<and> 0 \<le> r0 \<and> r0 < int S"
  have a: "(\<forall>i<?n. in_grid S r0 (c0 + int i)) \<longleftrightarrow> ?B"
  proof
    assume h: "\<forall>i<?n. in_grid S r0 (c0 + int i)"
    from h n0 have "in_grid S r0 (c0 + int 0)" by blast
    moreover from h n0 have "in_grid S r0 (c0 + int (?n - 1))" by simp
    ultimately show ?B using n0 by (auto simp: in_grid_def)
  next
    assume ?B then show "\<forall>i<?n. in_grid S r0 (c0 + int i)" by (auto simp: in_grid_def)
  qed
  show ?thesis
  proof (cases ?B)
    case False
    then have "\<not> canPlace word r0 c0 ACROSS g"
      by (auto simp: canPlace_def Let_def len)
    with False a show ?thesis by blast
  next
    case True
    have b1: "\<not> (c0 - 1 \<ge> 0 \<and> cell_at g r0 (c0 - 1) \<noteq> None) \<longleftrightarrow> look g r0 (c0 - 1) = None"
      by (rule guard_look[OF sq]) (use True in \<open>auto simp: in_grid_def\<close>)
    have b2: "\<not> (c0 + int ?n < int S \<and> cell_at g r0 (c0 + int ?n) \<noteq> None)
               \<longleftrightarrow> look g r0 (c0 + int ?n) = None"
      by (rule guard_look[OF sq]) (use True in \<open>auto simp: in_grid_def\<close>)
    have c: "\<And>i. i < ?n \<Longrightarrow>
        (let r = r0; c = c0 + int i; cell = cell_at g r c in
               if cell \<noteq> None \<and> cell \<noteq> Some (word ! i) then False
               else if cell = None then
                 if r - 1 \<ge> 0 \<and> cell_at g (r - 1) c \<noteq> None then False
                 else if r + 1 < int S \<and> cell_at g (r + 1) c \<noteq> None then False
                 else True
               else True)
        \<longleftrightarrow> (look g r0 (c0 + int i) = Some (word ! i)
       \<or> (look g r0 (c0 + int i) = None
          \<and> look g (r0 - 1) (c0 + int i) = None \<and> look g (r0 + 1) (c0 + int i) = None))"
    proof -
      fix i assume i: "i < ?n"
      have in0: "in_grid S r0 (c0 + int i)" using True i by (auto simp: in_grid_def)
      have l0: "look g r0 (c0 + int i) = cell_at g r0 (c0 + int i)"
        by (rule look_in[OF sq in0])
      have u: "\<not> (r0 - 1 \<ge> 0 \<and> cell_at g (r0 - 1) (c0 + int i) \<noteq> None)
                \<longleftrightarrow> look g (r0 - 1) (c0 + int i) = None"
        by (rule guard_look[OF sq]) (use True i in \<open>auto simp: in_grid_def\<close>)
      have d: "\<not> (r0 + 1 < int S \<and> cell_at g (r0 + 1) (c0 + int i) \<noteq> None)
                \<longleftrightarrow> look g (r0 + 1) (c0 + int i) = None"
        by (rule guard_look[OF sq]) (use True i in \<open>auto simp: in_grid_def\<close>)
      show "?thesis i" (is "?L \<longleftrightarrow> ?R")
        using u d unfolding l0 Let_def by (cases "cell_at g r0 (c0 + int i)") auto
    qed
    define body where "body = (\<lambda>i.
               let r = r0; c = c0 + int i; cell = cell_at g r c in
               if cell \<noteq> None \<and> cell \<noteq> Some (word ! i) then False
               else if cell = None then
                 if r - 1 \<ge> 0 \<and> cell_at g (r - 1) c \<noteq> None then False
                 else if r + 1 < int S \<and> cell_at g (r + 1) c \<noteq> None then False
                 else True
               else True)"
    define P1 where "P1 = (c0 - 1 \<ge> 0 \<and> cell_at g r0 (c0 - 1) \<noteq> None)"
    define P2 where "P2 = (c0 + int ?n < int S \<and> cell_at g r0 (c0 + int ?n) \<noteq> None)"
    have unf: "canPlace word r0 c0 ACROSS g =
       (if c0 < 0 \<or> c0 + int ?n > int S \<or> r0 < 0 \<or> r0 \<ge> int S then False
        else if P1 then False else if P2 then False else list_all body [0..<?n])"
      unfolding canPlace_def body_def P1_def P2_def Let_def len by simp
    have "canPlace word r0 c0 ACROSS g \<longleftrightarrow> (\<not> P1 \<and> \<not> P2 \<and> (\<forall>i<?n. body i))"
      unfolding unf using True by (auto simp: list_all_iff)
    then have "canPlace word r0 c0 ACROSS g \<longleftrightarrow>
       (look g r0 (c0 - 1) = None \<and> look g r0 (c0 + int ?n) = None \<and> (\<forall>i<?n. body i))"
      using b1 b2 unfolding P1_def P2_def by blast
    moreover have "\<And>i. i < ?n \<Longrightarrow> body i \<longleftrightarrow> (look g r0 (c0 + int i) = Some (word ! i)
       \<or> (look g r0 (c0 + int i) = None
          \<and> look g (r0 - 1) (c0 + int i) = None \<and> look g (r0 + 1) (c0 + int i) = None))"
      unfolding body_def by (rule c)
    ultimately show ?thesis using a True by auto
  qed
qed

lemma canPlace_down:
  assumes sq: "square g S" and ne: "word \<noteq> []"
  shows "canPlace word r0 c0 DOWN g \<longleftrightarrow>
     (\<forall>i<length word. in_grid S (r0 + int i) c0)
   \<and> look g (r0 - 1) c0 = None
   \<and> look g (r0 + int (length word)) c0 = None
   \<and> (\<forall>i<length word.
         look g (r0 + int i) c0 = Some (word ! i)
       \<or> (look g (r0 + int i) c0 = None
          \<and> look g (r0 + int i) (c0 - 1) = None \<and> look g (r0 + int i) (c0 + 1) = None))"
proof -
  let ?n = "length word"
  have len: "length g = S" using sq by (simp add: square_def)
  have n0: "0 < ?n" using ne by simp
  let ?B = "0 \<le> r0 \<and> r0 + int ?n \<le> int S \<and> 0 \<le> c0 \<and> c0 < int S"
  have a: "(\<forall>i<?n. in_grid S (r0 + int i) c0) \<longleftrightarrow> ?B"
  proof
    assume h: "\<forall>i<?n. in_grid S (r0 + int i) c0"
    from h n0 have "in_grid S (r0 + int 0) c0" by blast
    moreover from h n0 have "in_grid S (r0 + int (?n - 1)) c0" by simp
    ultimately show ?B using n0 by (auto simp: in_grid_def)
  next
    assume ?B then show "\<forall>i<?n. in_grid S (r0 + int i) c0" by (auto simp: in_grid_def)
  qed
  show ?thesis
  proof (cases ?B)
    case False
    then have "\<not> canPlace word r0 c0 DOWN g"
      by (auto simp: canPlace_def Let_def len)
    with False a show ?thesis by blast
  next
    case True
    have b1: "\<not> (r0 - 1 \<ge> 0 \<and> cell_at g (r0 - 1) c0 \<noteq> None) \<longleftrightarrow> look g (r0 - 1) c0 = None"
      by (rule guard_look[OF sq]) (use True in \<open>auto simp: in_grid_def\<close>)
    have b2: "\<not> (r0 + int ?n < int S \<and> cell_at g (r0 + int ?n) c0 \<noteq> None)
               \<longleftrightarrow> look g (r0 + int ?n) c0 = None"
      by (rule guard_look[OF sq]) (use True in \<open>auto simp: in_grid_def\<close>)
    define body where "body = (\<lambda>i.
               let r = r0 + int i; c = c0; cell = cell_at g r c in
               if cell \<noteq> None \<and> cell \<noteq> Some (word ! i) then False
               else if cell = None then
                 if c - 1 \<ge> 0 \<and> cell_at g r (c - 1) \<noteq> None then False
                 else if c + 1 < int S \<and> cell_at g r (c + 1) \<noteq> None then False
                 else True
               else True)"
    have c: "body i \<longleftrightarrow> (look g (r0 + int i) c0 = Some (word ! i)
       \<or> (look g (r0 + int i) c0 = None
          \<and> look g (r0 + int i) (c0 - 1) = None \<and> look g (r0 + int i) (c0 + 1) = None))"
      if i: "i < ?n" for i
    proof -
      have in0: "in_grid S (r0 + int i) c0" using True i by (auto simp: in_grid_def)
      have l0: "look g (r0 + int i) c0 = cell_at g (r0 + int i) c0"
        by (rule look_in[OF sq in0])
      have u: "\<not> (c0 - 1 \<ge> 0 \<and> cell_at g (r0 + int i) (c0 - 1) \<noteq> None)
                \<longleftrightarrow> look g (r0 + int i) (c0 - 1) = None"
        by (rule guard_look[OF sq]) (use True i in \<open>auto simp: in_grid_def\<close>)
      have d: "\<not> (c0 + 1 < int S \<and> cell_at g (r0 + int i) (c0 + 1) \<noteq> None)
                \<longleftrightarrow> look g (r0 + int i) (c0 + 1) = None"
        by (rule guard_look[OF sq]) (use True i in \<open>auto simp: in_grid_def\<close>)
      show ?thesis
        using u d unfolding body_def l0 Let_def by (cases "cell_at g (r0 + int i) c0") auto
    qed
    define P1 where "P1 = (r0 - 1 \<ge> 0 \<and> cell_at g (r0 - 1) c0 \<noteq> None)"
    define P2 where "P2 = (r0 + int ?n < int S \<and> cell_at g (r0 + int ?n) c0 \<noteq> None)"
    have unf: "canPlace word r0 c0 DOWN g =
       (if r0 < 0 \<or> r0 + int ?n > int S \<or> c0 < 0 \<or> c0 \<ge> int S then False
        else if P1 then False else if P2 then False else list_all body [0..<?n])"
      unfolding canPlace_def body_def P1_def P2_def Let_def len by simp
    have "canPlace word r0 c0 DOWN g \<longleftrightarrow> (\<not> P1 \<and> \<not> P2 \<and> (\<forall>i<?n. body i))"
      unfolding unf using True by (auto simp: list_all_iff)
    then have "canPlace word r0 c0 DOWN g \<longleftrightarrow>
       (look g (r0 - 1) c0 = None \<and> look g (r0 + int ?n) c0 = None \<and> (\<forall>i<?n. body i))"
      using b1 b2 unfolding P1_def P2_def by blast
    with c a True show ?thesis by auto
  qed
qed

text \<open>
  Claim C5. On an \<open>S \<times> S\<close> grid and for a word of at least one letter (an answer has
  3 to 13 letters), \<open>canPlace\<close> holds exactly when (a) every covered cell is inside the
  grid, (b) the cell before the start and the cell after the end, along the axis, are
  empty or off the grid, and (c) every covered cell either holds the word's letter at
  that offset or is empty with both neighbours across the axis empty or off the grid.
\<close>

theorem canPlace_iff:
  assumes "square g S" and "word \<noteq> []"
  shows "canPlace word r0 c0 d g \<longleftrightarrow>
     (\<forall>i<length word. in_grid S (cover_r d r0 i) (cover_c d c0 i))
   \<and> look g (axis_r d r0 (- 1)) (axis_c d c0 (- 1)) = None
   \<and> look g (axis_r d r0 (int (length word))) (axis_c d c0 (int (length word))) = None
   \<and> (\<forall>i<length word.
         look g (cover_r d r0 i) (cover_c d c0 i) = Some (word ! i)
       \<or> (look g (cover_r d r0 i) (cover_c d c0 i) = None
          \<and> look g (side_r d (cover_r d r0 i) (- 1)) (side_c d (cover_c d c0 i) (- 1)) = None
          \<and> look g (side_r d (cover_r d r0 i) 1) (side_c d (cover_c d c0 i) 1) = None))"
proof (cases d)
  case ACROSS
  show ?thesis
    unfolding ACROSS using canPlace_across[OF assms, of r0 c0]
    by (simp add: cover_r_def cover_c_def axis_r_def axis_c_def side_r_def side_c_def)
next
  case DOWN
  show ?thesis
    unfolding DOWN using canPlace_down[OF assms, of r0 c0]
    by (simp add: cover_r_def cover_c_def axis_r_def axis_c_def side_r_def side_c_def)
qed

theorem canPlace_iff_witness:
  "canPlace ''OAT'' 1 2 DOWN (placeWord ''CAT'' 2 1 ACROSS (makeEmptyGrid 5))
   \<and> look (placeWord ''CAT'' 2 1 ACROSS (makeEmptyGrid 5)) 0 2 = None
   \<and> look (placeWord ''CAT'' 2 1 ACROSS (makeEmptyGrid 5)) 4 2 = None"
proof -
  let ?G = "placeWord ''CAT'' 2 1 ACROSS (makeEmptyGrid 5)"
  have sq: "square ?G 5" by code_simp
  have ne: "''OAT'' \<noteq> []" by simp
  have cp: "canPlace ''OAT'' 1 2 DOWN ?G" by code_simp
  from canPlace_iff[OF sq ne, of 1 2 DOWN] cp show ?thesis
    by (simp add: axis_r_def axis_c_def)
qed

subsection \<open>The seeded generator\<close>

lemma round_double_exact: "x < 2 ^ 53 \<Longrightarrow> round_double x = x"
  by (simp add: round_double_def)

lemma mulberry32_range: "0 \<le> mulberry32 seed \<and> mulberry32 seed < 2 ^ 32"
  by (simp add: mulberry32_def)

lemma rng_state_exact:
  "mulberry32 seed + int n * 0x6d2b79f5 < 2 ^ 53 \<Longrightarrow>
     rng_state seed n = mulberry32 seed + int n * 0x6d2b79f5"
proof (induction n)
  case 0
  then show ?case by simp
next
  case (Suc n)
  then have "rng_state seed n = mulberry32 seed + int n * 0x6d2b79f5"
    by (simp add: algebra_simps)
  moreover have "mulberry32 seed + int n * 0x6d2b79f5 + 0x6d2b79f5 < 2 ^ 53"
    using Suc.prems by (simp add: algebra_simps)
  ultimately show ?case
    by (simp add: rng_next_def Let_def round_double_exact algebra_simps)
qed

lemma mulberry32_out_ref: "mulberry32_out w = ref_out w"
  by (simp add: mulberry32_out_def ref_out_def Let_def or.commute)

lemma ref_state_eq: "ref_state w n = w + of_nat n * 0x6d2b79f5"
  by (induction n) (simp_all add: algebra_simps)



text \<open>
  While the state of the closure stays below \<open>2^53\<close> every addition is exact, and the
  output of the \<open>n\<close>-th call is the one of the 32-bit reference.
\<close>

lemma rng_nth_agrees:
  assumes "0 < n" and "mulberry32 seed + int n * 0x6d2b79f5 < 2 ^ 53"
  shows "rng_nth seed n = ref_nth (word_of_int seed) n"
proof -
  obtain m where n: "n = Suc m" using assms(1) by (cases n) auto
  have lt: "mulberry32 seed + int m * 0x6d2b79f5 < 2 ^ 53"
    using assms(2) by (simp add: n algebra_simps)
  have st: "rng_state seed m = mulberry32 seed + int m * 0x6d2b79f5"
    by (rule rng_state_exact[OF lt])
  have "rng_nth seed n =
      mulberry32_out (word_of_int (mulberry32 seed + int n * 0x6d2b79f5))"
    using assms(2)
    by (simp add: rng_nth_def n st rng_next_def Let_def round_double_exact algebra_simps)
  moreover have "(word_of_int (mulberry32 seed) :: 32 word) = word_of_int seed"
    by (simp add: mulberry32_def word_of_int_eq_iff take_bit_eq_mod)
  ultimately show ?thesis
    by (simp add: ref_nth_def ref_state_eq mulberry32_out_ref)
qed

lemma rng_range_uniform:
  assumes "n \<le> 4917756"
  shows "mulberry32 seed + int n * 0x6d2b79f5 < 2 ^ 53"
proof -
  have "mulberry32 seed < 2 ^ 32" using mulberry32_range[of seed] by simp
  moreover have "int n * 0x6d2b79f5 \<le> 4917756 * 0x6d2b79f5"
    using assms by simp
  ultimately show ?thesis by simp
qed

lemma round_tie: "round_double 9007199260973067 = 9007199260973068"
  by code_simp

text \<open>
  The bound is sharp. With seed \<open>0\<close> the state after \<open>4917758\<close> calls is
  \<open>9007197429407254\<close>; the next sum \<open>9007199260973067\<close> is odd and above \<open>2^53\<close>, so
  the double addition rounds it to \<open>9007199260973068\<close>, and call \<open>4917759\<close> of one
  closure would start from a state that is one more than the reference's. No closure of
  the program is called that often: each one serves a single shuffle of the bank or a
  single trial, with one call per shuffle step.
\<close>

lemma rng_nth_diverges_late:
  "rng_nth 0 4917759 \<noteq> ref_nth 0 4917759"
proof -
  have "rng_state 0 4917758 = mulberry32 0 + int 4917758 * 0x6d2b79f5"
    by (rule rng_state_exact) (simp add: mulberry32_def)
  then have st: "rng_state 0 4917758 = 9007197429407254"
    by (simp add: mulberry32_def)
  have "rng_nth 0 4917759 = mulberry32_out (word_of_int 9007199260973068)"
    by (simp add: rng_nth_def st rng_next_def Let_def round_tie)
  moreover have "ref_nth 0 4917759 = ref_out (word_of_int 9007199260973067)"
    by (simp add: ref_nth_def ref_state_eq)
  ultimately show ?thesis
    by (simp add: mulberry32_out_def ref_out_def Let_def)
qed



subsection \<open>Shuffle and word selection\<close>

lemma shuffle_loop_mset: "k < length arr \<or> k = 0 \<Longrightarrow> mset (fst (shuffle_loop k arr t)) = mset arr"
proof (induction k arbitrary: arr t)
  case 0
  then show ?case by simp
next
  case (Suc k)
  obtain u t' where n: "rng_next t = (u, t')" by (cases "rng_next t")
  let ?j = "rand_index u (Suc k)"
  have "uint u < 4294967296" using uint_bounded[of u] by simp
  then have "uint u * (int (Suc k) + 1) < 4294967296 * (int (Suc k) + 1)"
    by (intro mult_strict_right_mono) auto
  then have "uint u * (int (Suc k) + 1) div 4294967296 < int (Suc k) + 1"
    by (simp add: div_less_iff_less_mult)
  then have j: "?j \<le> Suc k" by (simp add: rand_index_def)
  let ?arr' = "arr[Suc k := arr ! ?j, ?j := arr ! Suc k]"
  have k: "Suc k < length arr" using Suc.prems by simp
  have "mset ?arr' = mset arr"
    using k j by (simp add: mset_swap)
  moreover have "mset (fst (shuffle_loop k ?arr' t')) = mset ?arr'"
    by (rule Suc.IH) (use k in auto)
  ultimately show ?case by (simp add: n Let_def)
qed

lemma shuffleInPlace_mset: "mset (fst (shuffleInPlace arr t)) = mset arr"
  unfolding shuffleInPlace_def by (rule shuffle_loop_mset) (cases arr, auto)

lemma shuffleInPlace_set: "set (fst (shuffleInPlace arr t)) = set arr"
  using shuffleInPlace_mset[of arr t] by (metis set_mset_mset)

lemma shuffleInPlace_length: "length (fst (shuffleInPlace arr t)) = length arr"
  using shuffleInPlace_mset[of arr t] by (metis size_mset)

text \<open>
  The index drawn by the code is the floor of the fraction times \<open>i + 1\<close>, it lies in
  \<open>0..i\<close>, and the loop of \<^verbatim>\<open>shuffleInPlace\<close> is the Fisher-Yates shuffle.
\<close>

lemma rand_index_floor: "rand_index u i = nat \<lfloor>rng_float u * real (i + 1)\<rfloor>"
proof -
  have "rng_float u * real (i + 1)
      = real_of_int (uint u * (int i + 1)) / real_of_int 4294967296"
    by (simp add: rng_float_def)
  then have "\<lfloor>rng_float u * real (i + 1)\<rfloor> = uint u * (int i + 1) div 4294967296"
    by (simp only: floor_divide_of_int_eq)
  then show ?thesis by (simp add: rand_index_def)
qed

lemma rand_index_le: "rand_index u i \<le> i"
proof -
  have "uint u < 4294967296" using uint_bounded[of u] by simp
  then have "uint u * (int i + 1) < 4294967296 * (int i + 1)"
    by (intro mult_strict_right_mono) auto
  then have "uint u * (int i + 1) div 4294967296 < int i + 1"
    by (simp add: div_less_iff_less_mult)
  then show ?thesis by (simp add: rand_index_def)
qed

lemma shuffle_loop_fold:
  "shuffle_loop k arr t = fold fisher_yates_step (rev [1..<Suc k]) (arr, t)"
proof (induction k arbitrary: arr t)
  case 0
  then show ?case by simp
next
  case (Suc k)
  obtain u t' where n: "rng_next t = (u, t')" by (cases "rng_next t")
  have r: "rev [1..<Suc (Suc k)] = Suc k # rev [1..<Suc k]" by simp
  have "fisher_yates_step (Suc k) (arr, t)
      = (arr[Suc k := arr ! rand_index u (Suc k), rand_index u (Suc k) := arr ! Suc k], t')"
    by (simp add: fisher_yates_step_def n swap_at_def rand_index_floor)
  then show ?case
    unfolding r by (simp add: n Suc.IH Let_def)
qed

lemma shuffleInPlace_fisher_yates: "shuffleInPlace arr t = fisher_yates arr t"
proof (cases arr)
  case Nil
  then show ?thesis by (simp add: shuffleInPlace_def fisher_yates_def)
next
  case (Cons a as)
  then have "Suc (length arr - 1) = length arr" by simp
  then show ?thesis
    unfolding shuffleInPlace_def fisher_yates_def shuffle_loop_fold by simp
qed

lemma pick_loop_eq:
  "pick_loop pool chosen seen =
     chosen @ first_by_answer (filter (\<lambda>a. len_ok a \<and> answer a \<notin> seen) pool)"
proof (induction pool arbitrary: chosen seen)
  case Nil
  then show ?case by simp
next
  case (Cons item pool)
  show ?case
  proof (cases "len_ok item \<and> answer item \<notin> seen")
    case False
    then show ?thesis using Cons.IH[of chosen seen] by (auto simp: len_ok_def)
  next
    case True
    have "filter (\<lambda>y. answer y \<noteq> answer item) (filter (\<lambda>a. len_ok a \<and> answer a \<notin> seen) pool)
        = filter (\<lambda>a. len_ok a \<and> answer a \<notin> insert (answer item) seen) pool"
      by (auto intro: filter_cong)
    with True show ?thesis using Cons.IH[of "chosen @ [item]" "insert (answer item) seen"]
      by (auto simp: len_ok_def)
  qed
qed

lemma first_by_answer_subset: "set (first_by_answer xs) \<subseteq> set xs"
  by (induction xs rule: first_by_answer.induct) auto

lemma first_by_answer_distinct: "distinct (map answer (first_by_answer xs))"
proof (induction xs rule: first_by_answer.induct)
  case 1
  then show ?case by simp
next
  case (2 x xs)
  have "answer x \<notin> answer ` set (first_by_answer (filter (\<lambda>y. answer y \<noteq> answer x) xs))"
    using first_by_answer_subset[of "filter (\<lambda>y. answer y \<noteq> answer x) xs"] by auto
  with 2 show ?case by simp
qed

text \<open>
  Claim C7. The selected words are: the bank sorted stably by \<open>|length - 7|\<close>
  (ascending; equal keys keep the bank's order; the sort only permutes the bank), then
  shuffled by the Fisher-Yates shuffle (for \<open>i\<close> from the last index down to 1, element
  \<open>i\<close> is swapped with element \<open>floor (rng() * (i + 1))\<close>), then filtered to the lengths 3 to 13 with the first
  occurrence of every answer kept. So no selected answer is shorter than 3 or longer
  than 13, no answer occurs twice, every selected entry comes from the bank, and the
  empty bank gives the empty list.
\<close>

theorem pickDailyWords_spec:
  "pickDailyWords bank t =
      first_by_answer (filter len_ok (fst (fisher_yates (sort_key length_key bank) t)))
   \<and> sorted (map length_key (sort_key length_key bank))
   \<and> mset (sort_key length_key bank) = mset bank
   \<and> (\<forall>k. filter (\<lambda>a. length_key a = k) (sort_key length_key bank) = filter (\<lambda>a. length_key a = k) bank)
   \<and> (\<forall>a \<in> set (pickDailyWords bank t). 3 \<le> length (answer a) \<and> length (answer a) \<le> 13)
   \<and> distinct (map answer (pickDailyWords bank t))
   \<and> set (pickDailyWords bank t) \<subseteq> set bank
   \<and> pickDailyWords [] t = []"
proof -
  let ?pool = "fst (fisher_yates (sort_key length_key bank) t)"
  have eq: "pickDailyWords b t = first_by_answer
      (filter len_ok (fst (fisher_yates (sort_key length_key b) t)))" for b
    by (simp add: pickDailyWords_def Let_def split_beta pick_loop_eq length_key_def[abs_def]
        shuffleInPlace_fisher_yates)
  have sub: "set (pickDailyWords bank t) \<subseteq> set (filter len_ok ?pool)"
    unfolding eq by (rule first_by_answer_subset)
  have 1: "\<forall>a \<in> set (pickDailyWords bank t). 3 \<le> length (answer a) \<and> length (answer a) \<le> 13"
    using sub by (auto simp: len_ok_def)
  have 2: "set (pickDailyWords bank t) \<subseteq> set bank"
    using sub shuffleInPlace_set[of "sort_key length_key bank" t]
    by (auto simp: shuffleInPlace_fisher_yates)
  have 3: "pickDailyWords [] t = []"
    by (simp add: eq fisher_yates_def)
  show ?thesis
    using eq 1 2 3 by (simp add: first_by_answer_distinct sort_key_stable)
qed

theorem pickDailyWords_spec_witness:
  "length (pickDailyWords
      [\<lparr>answer = ''AXON'', clue = ''a''\<rparr>, \<lparr>answer = ''PONS'', clue = ''b''\<rparr>,
       \<lparr>answer = ''AXON'', clue = ''c''\<rparr>, \<lparr>answer = ''AB'', clue = ''d''\<rparr>,
       \<lparr>answer = ''APHASIA'', clue = ''e''\<rparr>] (mulberry32 1)) = 3
   \<and> distinct (map answer (pickDailyWords
      [\<lparr>answer = ''AXON'', clue = ''a''\<rparr>, \<lparr>answer = ''PONS'', clue = ''b''\<rparr>,
       \<lparr>answer = ''AXON'', clue = ''c''\<rparr>, \<lparr>answer = ''AB'', clue = ''d''\<rparr>,
       \<lparr>answer = ''APHASIA'', clue = ''e''\<rparr>] (mulberry32 1)))"
proof -
  let ?B = "[\<lparr>answer = ''AXON'', clue = ''a''\<rparr>, \<lparr>answer = ''PONS'', clue = ''b''\<rparr>,
       \<lparr>answer = ''AXON'', clue = ''c''\<rparr>, \<lparr>answer = ''AB'', clue = ''d''\<rparr>,
       \<lparr>answer = ''APHASIA'', clue = ''e''\<rparr>]"
  have a: "length (pickDailyWords ?B (mulberry32 1)) = 3" by code_simp
  from pickDailyWords_spec[of ?B "mulberry32 1"]
  have b: "distinct (map answer (pickDailyWords ?B (mulberry32 1)))" by blast
  from a b show ?thesis by blast
qed

subsection \<open>How often a closure is called\<close>

text \<open>
  Every closure of the program serves one shuffle of the bank or one trial. A shuffle of
  \<open>n\<close> elements calls it \<open>n - 1\<close> times; the search for one word shuffles the word's
  distinct letters and, for some of them, the indices at which the letter occurs. So a
  trial on words that fit the grid ends after at most \<open>length ws * (1 + sz + sz * sz)\<close>
  calls, far inside the range in which the closure is the 32-bit reference.
\<close>

lemma drawn_0: "drawn t 0 = t"
  by (simp add: drawn_def)

lemma drawn_Suc: "drawn (snd (rng_next t)) k = drawn t (Suc k)"
  unfolding drawn_def using funpow_swap1[of "\<lambda>s. snd (rng_next s)" k t] by simp

lemma drawn_add: "drawn (drawn t a) b = drawn t (a + b)"
proof -
  have "drawn t (b + a) = drawn (drawn t a) b" by (simp add: drawn_def funpow_add)
  then show ?thesis by (simp only: add.commute[of a b])
qed

lemma drawn_rng_state: "drawn (mulberry32 seed) k = rng_state seed k"
  by (induction k) (simp_all add: drawn_def)

lemma shuffle_loop_drawn: "snd (shuffle_loop k arr t) = drawn t k"
proof (induction k arbitrary: arr t)
  case 0
  then show ?case by (simp add: drawn_0)
next
  case (Suc k)
  obtain u t' where n: "rng_next t = (u, t')" by (cases "rng_next t")
  have "drawn t' k = drawn t (Suc k)" using drawn_Suc[of t k] by (simp add: n)
  then show ?case by (simp add: n Let_def Suc.IH)
qed

lemma shuffleInPlace_drawn: "snd (shuffleInPlace arr t) = drawn t (length arr - 1)"
  by (simp add: shuffleInPlace_def shuffle_loop_drawn)

lemma try_letters_drawn:
  "\<exists>k \<le> length Ls * length word. snd (try_letters word sz g Ls t) = drawn t k"
proof (induction Ls arbitrary: t)
  case Nil
  then show ?case by (simp add: drawn_0)
next
  case (Cons L Ls)
  let ?ix = "filter (\<lambda>i. word ! i = L) [0..<length word]"
  have ix: "length ?ix - 1 \<le> length word"
    using length_filter_le[of "\<lambda>i. word ! i = L" "[0..<length word]"] by simp
  show ?case
  proof (cases "findLetterPositions sz g L = []")
    case True
    from Cons.IH[of t] obtain k where "k \<le> length Ls * length word"
      "snd (try_letters word sz g Ls t) = drawn t k" by blast
    then show ?thesis using True by (intro exI[of _ k]) simp
  next
    case False
    obtain idxs t' where sh: "shuffleInPlace ?ix t = (idxs, t')"
      by (cases "shuffleInPlace ?ix t")
    have t': "t' = drawn t (length ?ix - 1)"
      using shuffleInPlace_drawn[of ?ix t] by (simp add: sh)
    show ?thesis
    proof (cases "try_idxs word g (findLetterPositions sz g L) idxs")
      case (Some x)
      have "snd (try_letters word sz g (L # Ls) t) = drawn t (length ?ix - 1)"
        using False Some by (simp add: sh t' Let_def)
      moreover have "length ?ix - 1 \<le> length (L # Ls) * length word" using ix by simp
      ultimately show ?thesis by blast
    next
      case None
      from Cons.IH[of t'] obtain k where k: "k \<le> length Ls * length word"
        "snd (try_letters word sz g Ls t') = drawn t' k" by blast
      have "snd (try_letters word sz g (L # Ls) t) = drawn t (length ?ix - 1 + k)"
        using False None k(2) by (simp add: sh Let_def t' drawn_add)
      moreover have "length ?ix - 1 + k \<le> length (L # Ls) * length word"
        using ix k(1) by simp
      ultimately show ?thesis by blast
    qed
  qed
qed

lemma set_order_length: "length (set_order seen xs) \<le> length seen + length xs"
proof (induction xs arbitrary: seen)
  case Nil
  then show ?case by simp
next
  case (Cons x xs)
  from Cons.IH[of "if x \<in> set seen then seen else seen @ [x]"] show ?case
    by (simp split: if_splits)
qed

lemma attempt_word_drawn:
  assumes "length (answer w) \<le> sz"
  shows "\<exists>k \<le> sz + sz * sz. snd (snd (attempt_word sz w (g, ps, t))) = drawn t k"
proof -
  let ?word = "answer w"
  obtain Ls t1 where sh: "shuffleInPlace (set_order [] ?word) t = (Ls, t1)"
    by (cases "shuffleInPlace (set_order [] ?word) t")
  have l0: "length (set_order [] ?word) \<le> length ?word"
    using set_order_length[of "[]" ?word] by simp
  have t1: "t1 = drawn t (length (set_order [] ?word) - 1)"
    using shuffleInPlace_drawn[of "set_order [] ?word" t] by (simp add: sh)
  have "length Ls = length (set_order [] ?word)"
    using shuffleInPlace_length[of "set_order [] ?word" t] by (simp add: sh)
  then have lL: "length Ls \<le> sz" using l0 assms by simp
  from try_letters_drawn[of Ls ?word sz g t1] obtain k where
    k: "k \<le> length Ls * length ?word" "snd (try_letters ?word sz g Ls t1) = drawn t1 k"
    by blast
  have "length Ls * length ?word \<le> sz * sz" using lL assms by (rule mult_le_mono)
  then have b: "length (set_order [] ?word) - 1 + k \<le> sz + sz * sz"
    using k(1) l0 assms by simp
  obtain found t2 where tl: "try_letters ?word sz g Ls t1 = (found, t2)"
    by (cases "try_letters ?word sz g Ls t1")
  have "t2 = drawn t1 k" using k(2) by (simp add: tl)
  then have "t2 = drawn t (length (set_order [] ?word) - 1 + k)"
    by (simp only: t1 drawn_add)
  then have "snd (snd (attempt_word sz w (g, ps, t)))
      = drawn t (length (set_order [] ?word) - 1 + k)"
    by (simp add: attempt_word_def sh tl Let_def split: option.splits)
  with b show ?thesis by blast
qed

lemma fold_attempt_drawn:
  assumes "\<forall>w\<in>set ws. length (answer w) \<le> sz"
  shows "\<exists>k \<le> length ws * (sz + sz * sz).
           snd (snd (fold (attempt_word sz) ws (g, ps, t))) = drawn t k"
  using assms
proof (induction ws arbitrary: g ps t)
  case Nil
  then show ?case by (simp add: drawn_0)
next
  case (Cons w ws)
  obtain g' ps' t' where a: "attempt_word sz w (g, ps, t) = (g', ps', t')"
    by (cases "attempt_word sz w (g, ps, t)") auto
  from attempt_word_drawn[of w sz g ps t] Cons.prems obtain k1 where
    k1: "k1 \<le> sz + sz * sz" "t' = drawn t k1" by (auto simp: a)
  from Cons.IH[of g' ps' t'] Cons.prems obtain k2 where
    k2: "k2 \<le> length ws * (sz + sz * sz)"
        "snd (snd (fold (attempt_word sz) ws (g', ps', t'))) = drawn t' k2" by auto
  have "snd (snd (fold (attempt_word sz) (w # ws) (g, ps, t))) = drawn t' k2"
    by (simp add: a k2(2))
  then have "snd (snd (fold (attempt_word sz) (w # ws) (g, ps, t))) = drawn t (k1 + k2)"
    by (simp only: k1(2) drawn_add)
  moreover have "k1 + k2 \<le> length (w # ws) * (sz + sz * sz)"
    using k1(1) k2(1) by simp
  ultimately show ?case by blast
qed

text \<open>
  The state at the end of the placement loop of a trial is the state after \<open>k\<close> calls
  of the closure made for the trial, with \<open>k\<close> bounded by the size of the input; the
  bank shuffle of the word selection ends after \<open>length bank - 1\<close> calls.
\<close>

lemma trial_draws:
  assumes "fits sz ws" and "shuffleInPlace ws (mulberry32 seed) = (copy, t1)"
  shows "\<exists>k \<le> length ws * (1 + sz + sz * sz).
           snd (snd (fold (attempt_word sz) (tl copy) (g, ps, t1))) = rng_state seed k"
proof -
  have t1: "t1 = drawn (mulberry32 seed) (length ws - 1)"
    using shuffleInPlace_drawn[of ws "mulberry32 seed"] by (simp add: assms(2))
  have "set copy = set ws" "length copy = length ws"
    using shuffleInPlace_set[of ws "mulberry32 seed"]
      shuffleInPlace_length[of ws "mulberry32 seed"] by (simp_all add: assms(2))
  moreover have "set (tl copy) \<subseteq> set copy" by (cases copy) auto
  ultimately have f: "\<forall>w\<in>set (tl copy). length (answer w) \<le> sz"
    and l: "length (tl copy) \<le> length ws"
    using assms(1) by (auto simp: fits_def)
  from fold_attempt_drawn[OF f, of g ps t1] obtain k where
    k: "k \<le> length (tl copy) * (sz + sz * sz)"
       "snd (snd (fold (attempt_word sz) (tl copy) (g, ps, t1))) = drawn t1 k" by blast
  have "length (tl copy) * (sz + sz * sz) \<le> length ws * (sz + sz * sz)"
    using l by (rule mult_le_mono1)
  then have "length ws - 1 + k \<le> length ws * (1 + sz + sz * sz)"
    using k(1) by (simp add: algebra_simps)
  moreover have "drawn t1 k = rng_state seed (length ws - 1 + k)"
    unfolding t1 using drawn_add[of "mulberry32 seed" "length ws - 1" k]
      drawn_rng_state[of seed "length ws - 1 + k"] by (rule trans)
  then have "snd (snd (fold (attempt_word sz) (tl copy) (g, ps, t1)))
      = rng_state seed (length ws - 1 + k)"
    using k(2) by simp
  ultimately show ?thesis by blast
qed

lemma bank_shuffle_draws:
  "snd (shuffleInPlace (sort_key f bank) (mulberry32 seed)) = rng_state seed (length bank - 1)"
  by (simp add: shuffleInPlace_drawn drawn_rng_state)

text \<open>
  So every call made during a trial on words that fit the grid returns the value of the
  32-bit reference, as long as the input is not larger than
  \<open>length ws * (1 + sz + sz * sz) \<le> 4917756\<close>; for the 13 by 13 grid that is any list
  of up to 26872 words.
\<close>

lemma trial_calls_exact:
  assumes "length ws * (1 + sz + sz * sz) \<le> 4917756"
    and "0 < n" and "n \<le> length ws * (1 + sz + sz * sz)"
  shows "rng_nth seed n = ref_nth (word_of_int seed) n"
proof -
  have "n \<le> 4917756" using assms(1,3) by simp
  then have "mulberry32 seed + int n * 0x6d2b79f5 < 2 ^ 53" by (rule rng_range_uniform)
  with assms(2) show ?thesis by (rule rng_nth_agrees)
qed

subsection \<open>The retry loop\<close>

declare orch_loop.simps [simp del]

lemma orch_loop_step:
  "salt < maxS \<Longrightarrow>
   orch_loop ws seed sz minW maxS salt best =
     (if placedCount ws seed sz salt \<ge> minW then trial ws seed sz salt
      else orch_loop ws seed sz minW maxS (salt + 1)
             (case best of
                None \<Rightarrow> Some (trial ws seed sz salt, quality ws seed sz salt, salt)
              | Some (bg, bscore, bsalt) \<Rightarrow>
                  if quality ws seed sz salt > bscore
                  then Some (trial ws seed sz salt, quality ws seed sz salt, salt) else best))"
  by (subst orch_loop.simps)
    (auto simp: Let_def trial_def placedCount_def quality_def split: option.splits)

lemma orch_loop_done:
  "\<not> salt < maxS \<Longrightarrow>
   orch_loop ws seed sz minW maxS salt best =
     (case best of Some (bg, bscore, bsalt) \<Rightarrow> bg
                 | None \<Rightarrow> generateCrosswordFromWords ws seed sz)"
  by (subst orch_loop.simps) simp

lemma orch_loop_threshold:
  assumes "salt \<le> s" "s < maxS" "placedCount ws seed sz s \<ge> minW"
    and "\<forall>k. salt \<le> k \<and> k < s \<longrightarrow> placedCount ws seed sz k < minW"
  shows "orch_loop ws seed sz minW maxS salt best = trial ws seed sz s"
  using assms
proof (induction "s - salt" arbitrary: salt best)
  case 0
  then have "salt = s" by simp
  with 0 show ?case by (simp add: orch_loop_step)
next
  case (Suc d)
  then have lt: "salt < s" by simp
  with Suc.prems have nt: "\<not> placedCount ws seed sz salt \<ge> minW" by auto
  from lt Suc.prems(2) have sm: "salt < maxS" by simp
  have d: "d = s - (salt + 1)" using Suc.hyps(2) by simp
  have le: "salt + 1 \<le> s" using lt by simp
  have rest: "\<forall>k. salt + 1 \<le> k \<and> k < s \<longrightarrow> placedCount ws seed sz k < minW"
    using Suc.prems(4) by auto
  obtain best' where
    "orch_loop ws seed sz minW maxS salt best = orch_loop ws seed sz minW maxS (salt + 1) best'"
    using orch_loop_step[OF sm, of ws seed sz minW best] nt by auto
  moreover have "orch_loop ws seed sz minW maxS (salt + 1) best' = trial ws seed sz s"
    by (rule Suc.hyps(1)[OF d le Suc.prems(2) Suc.prems(3) rest])
  ultimately show ?case by simp
qed

lemma orch_loop_best:
  assumes "salt \<le> maxS"
    and "\<forall>s. salt \<le> s \<and> s < maxS \<longrightarrow> placedCount ws seed sz s < minW"
    and "best = Some (trial ws seed sz b, quality ws seed sz b, b)"
    and "best_upto ws seed sz salt b"
  shows "\<exists>b'. best_upto ws seed sz maxS b' \<and>
           orch_loop ws seed sz minW maxS salt best = trial ws seed sz b'"
  using assms
proof (induction "maxS - salt" arbitrary: salt best b)
  case 0
  then have "salt = maxS" by simp
  with 0 show ?case by (auto simp: orch_loop_done)
next
  case (Suc d)
  then have lt: "salt < maxS" by simp
  with Suc.prems have nt: "\<not> placedCount ws seed sz salt \<ge> minW" by auto
  let ?q = "quality ws seed sz"
  show ?case
  proof (cases "?q salt > ?q b")
    case True
    let ?best' = "Some (trial ws seed sz salt, ?q salt, salt)"
    have bu: "best_upto ws seed sz (salt + 1) salt"
      using Suc.prems(4) True unfolding best_upto_def
      by (auto simp: less_Suc_eq intro: less_imp_le order.strict_trans1)
    have "\<exists>b'. best_upto ws seed sz maxS b' \<and>
           orch_loop ws seed sz minW maxS (salt + 1) ?best' = trial ws seed sz b'"
      by (rule Suc.hyps(1)[OF _ _ _ refl bu]) (use Suc.hyps(2) Suc.prems lt in auto)
    with lt nt True Suc.prems(3) show ?thesis by (simp add: orch_loop_step)
  next
    case False
    have bu: "best_upto ws seed sz (salt + 1) b"
      using Suc.prems(4) False unfolding best_upto_def
      by (auto simp: less_Suc_eq)
    have "\<exists>b'. best_upto ws seed sz maxS b' \<and>
           orch_loop ws seed sz minW maxS (salt + 1) best = trial ws seed sz b'"
      by (rule Suc.hyps(1)[OF _ _ _ Suc.prems(3) bu]) (use Suc.hyps(2) Suc.prems lt in auto)
    with lt nt False Suc.prems(3) show ?thesis by (simp add: orch_loop_step)
  qed
qed

lemma orchestrate_best:
  assumes "0 < maxS" and "\<forall>s<maxS. placedCount ws seed sz s < minW"
  shows "\<exists>b. best_upto ws seed sz maxS b \<and>
           orchestrate ws seed sz minW maxS = trial ws seed sz b"
proof -
  have nt: "\<not> placedCount ws seed sz 0 \<ge> minW" using assms by auto
  have bu: "best_upto ws seed sz (0 + 1) 0" by (simp add: best_upto_def)
  have "\<exists>b'. best_upto ws seed sz maxS b' \<and>
      orch_loop ws seed sz minW maxS (0 + 1)
        (Some (trial ws seed sz 0, quality ws seed sz 0, 0)) = trial ws seed sz b'"
    by (rule orch_loop_best[OF _ _ refl bu]) (use assms in auto)
  with assms(1) nt show ?thesis
    by (simp add: orchestrate_def orch_loop_step)
qed

subsection \<open>The order of the search\<close>

lemma find_append_case:
  "find P (xs @ ys) = (case find P xs of None \<Rightarrow> find P ys | Some x \<Rightarrow> Some x)"
  by (induction xs) auto

lemma try_positions_find:
  "try_positions word i g ps = find (accepts word g) (cands_of i ps)"
  by (induction ps) (auto simp: cands_of_def accepts_def Let_def)

lemma cands_of_Cons:
  "cands_of i ((r, c) # ps) = [(r, c - int i, ACROSS), (r - int i, c, DOWN)] @ cands_of i ps"
  by (simp add: cands_of_def)

lemma try_idxs_find:
  "try_idxs word g ps idxs = find (accepts word g) (letter_cands ps idxs)"
proof (induction idxs)
  case Nil
  then show ?case by (simp add: letter_cands_def)
next
  case (Cons i idxs)
  have "letter_cands ps (i # idxs) = cands_of i ps @ letter_cands ps idxs"
    by (simp add: letter_cands_def)
  then show ?case
    using Cons by (simp add: find_append_case try_positions_find split: option.splits)
qed

lemma try_letters_find:
  "fst (try_letters word sz g Ls t) =
     find (accepts word g)
       (concat (map (\<lambda>(L, idxs). letter_cands (findLetterPositions sz g L) idxs)
                    (search_plan word sz g Ls t)))"
proof (induction Ls arbitrary: t)
  case Nil
  then show ?case by simp
next
  case (Cons L Ls)
  show ?case
  proof (cases "findLetterPositions sz g L = []")
    case True
    then show ?thesis using Cons[of t] by simp
  next
    case False
    obtain idxs t' where sh:
      "shuffleInPlace (filter (\<lambda>i. word ! i = L) [0..<length word]) t = (idxs, t')"
      by (cases "shuffleInPlace (filter (\<lambda>i. word ! i = L) [0..<length word]) t")
    show ?thesis
      using False Cons[of t']
      by (simp add: sh find_append_case try_idxs_find split: option.splits)
  qed
qed

lemma search_plan_idxs:
  "(L, idxs) \<in> set (search_plan word sz g Ls t) \<Longrightarrow>
     L \<in> set Ls \<and> findLetterPositions sz g L \<noteq> []
     \<and> mset idxs = mset (filter (\<lambda>i. word ! i = L) [0..<length word])"
proof (induction Ls arbitrary: t)
  case Nil
  then show ?case by simp
next
  case (Cons K Ls)
  show ?case
  proof (cases "findLetterPositions sz g K = []")
    case True
    then show ?thesis using Cons by auto
  next
    case False
    obtain ks t' where sh:
      "shuffleInPlace (filter (\<lambda>i. word ! i = K) [0..<length word]) t = (ks, t')"
      by (cases "shuffleInPlace (filter (\<lambda>i. word ! i = K) [0..<length word]) t")
    have "mset ks = mset (filter (\<lambda>i. word ! i = K) [0..<length word])"
      using shuffleInPlace_mset[of "filter (\<lambda>i. word ! i = K) [0..<length word]" t]
      by (simp add: sh)
    then show ?thesis
      using False Cons.prems Cons.IH[of t'] by (auto simp: sh)
  qed
qed

lemma set_order_set: "set (set_order seen xs) = set seen \<union> set xs"
  by (induction xs arbitrary: seen) auto

lemma set_order_distinct: "distinct seen \<Longrightarrow> distinct (set_order seen xs)"
  by (induction xs arbitrary: seen) auto

lemma findLetterPositions_scan:
  "findLetterPositions sz g L = filter (\<lambda>(r, c). cell_at g r c = Some L) (scan sz)"
  by (simp add: findLetterPositions_def scan_def filter_concat filter_map comp_def cell_at_def)

text \<open>
  Claim C6, with the nesting of the source. The Grid Placer accepts the first candidate
  of \<open>word_cands\<close> that passes \<open>canPlace\<close>, writes it and appends its placement; with
  no such candidate the grid and the placements are unchanged. The candidates are
  ordered: the distinct letters of the word, shuffled; for each letter that occurs on the
  grid, the indices of that letter in the word, shuffled; for each index, the occurrences
  of the letter on the grid in row-major order; for each occurrence ACROSS, then DOWN.
\<close>

theorem attempt_word_search_order:
  "(case attempt_word sz w (g, ps, t) of (g', ps', t') \<Rightarrow>
      (case find (accepts (answer w) g) (word_cands sz (answer w) g t) of
         None \<Rightarrow> g' = g \<and> ps' = ps
       | Some (r, c, d) \<Rightarrow>
           g' = placeWord (answer w) r c d g \<and> ps' = ps @ [mk_placement w r c d]))
   \<and> word_cands sz (answer w) g t =
        concat (map (\<lambda>(L, idxs).
                  concat (map (\<lambda>i.
                    concat (map (\<lambda>(r, c). [(r, c - int i, ACROSS), (r - int i, c, DOWN)])
                      (filter (\<lambda>(r, c). cell_at g r c = Some L) (scan sz)))) idxs))
          (search_plan (answer w) sz g (fst (shuffleInPlace (set_order [] (answer w)) t))
             (snd (shuffleInPlace (set_order [] (answer w)) t))))
   \<and> mset (fst (shuffleInPlace (set_order [] (answer w)) t)) = mset (set_order [] (answer w))
   \<and> distinct (set_order [] (answer w)) \<and> set (set_order [] (answer w)) = set (answer w)
   \<and> (\<forall>(L, idxs) \<in> set (search_plan (answer w) sz g
                            (fst (shuffleInPlace (set_order [] (answer w)) t))
                            (snd (shuffleInPlace (set_order [] (answer w)) t))).
         findLetterPositions sz g L \<noteq> []
         \<and> mset idxs = mset (filter (\<lambda>i. answer w ! i = L) [0..<length (answer w)]))"
proof (intro conjI)
  obtain Ls t1 where sh: "shuffleInPlace (set_order [] (answer w)) t = (Ls, t1)"
    by (cases "shuffleInPlace (set_order [] (answer w)) t")
  obtain found t2 where tl: "try_letters (answer w) sz g Ls t1 = (found, t2)"
    by (cases "try_letters (answer w) sz g Ls t1")
  have "found = find (accepts (answer w) g) (word_cands sz (answer w) g t)"
    using try_letters_find[of "answer w" sz g Ls t1] by (simp add: word_cands_def sh tl)
  then show "case attempt_word sz w (g, ps, t) of (g', ps', t') \<Rightarrow>
      (case find (accepts (answer w) g) (word_cands sz (answer w) g t) of
         None \<Rightarrow> g' = g \<and> ps' = ps
       | Some (r, c, d) \<Rightarrow>
           g' = placeWord (answer w) r c d g \<and> ps' = ps @ [mk_placement w r c d])"
    by (auto simp: attempt_word_def sh tl Let_def split: option.splits)
  show "word_cands sz (answer w) g t =
        concat (map (\<lambda>(L, idxs).
                  concat (map (\<lambda>i.
                    concat (map (\<lambda>(r, c). [(r, c - int i, ACROSS), (r - int i, c, DOWN)])
                      (filter (\<lambda>(r, c). cell_at g r c = Some L) (scan sz)))) idxs))
          (search_plan (answer w) sz g (fst (shuffleInPlace (set_order [] (answer w)) t))
             (snd (shuffleInPlace (set_order [] (answer w)) t))))"
    by (simp add: word_cands_def sh letter_cands_def cands_of_def findLetterPositions_scan)
  show "mset (fst (shuffleInPlace (set_order [] (answer w)) t)) = mset (set_order [] (answer w))"
    by (rule shuffleInPlace_mset)
  show "distinct (set_order [] (answer w))"
    by (rule set_order_distinct) simp
  show "set (set_order [] (answer w)) = set (answer w)"
    by (simp add: set_order_set)
  show "\<forall>(L, idxs) \<in> set (search_plan (answer w) sz g
                            (fst (shuffleInPlace (set_order [] (answer w)) t))
                            (snd (shuffleInPlace (set_order [] (answer w)) t))).
         findLetterPositions sz g L \<noteq> []
         \<and> mset idxs = mset (filter (\<lambda>i. answer w ! i = L) [0..<length (answer w)])"
    using search_plan_idxs by fastforce
qed

theorem attempt_word_search_order_witness:
  "find (accepts ''TATA'' (placeWord ''CAT'' 2 1 ACROSS (makeEmptyGrid 5)))
        (word_cands 5 ''TATA'' (placeWord ''CAT'' 2 1 ACROSS (makeEmptyGrid 5)) 5)
     = Some (0, 3, DOWN)
   \<and> fst (attempt_word 5 \<lparr>answer = ''TATA'', clue = ''bye''\<rparr>
             (placeWord ''CAT'' 2 1 ACROSS (makeEmptyGrid 5), [], 5))
     = placeWord ''TATA'' 0 3 DOWN (placeWord ''CAT'' 2 1 ACROSS (makeEmptyGrid 5))
   \<and> fst (snd (attempt_word 5 \<lparr>answer = ''TATA'', clue = ''bye''\<rparr>
             (placeWord ''CAT'' 2 1 ACROSS (makeEmptyGrid 5), [], 5)))
     = [mk_placement \<lparr>answer = ''TATA'', clue = ''bye''\<rparr> 0 3 DOWN]"
proof -
  let ?G = "placeWord ''CAT'' 2 1 ACROSS (makeEmptyGrid 5)"
  let ?w = "\<lparr>answer = ''TATA'', clue = ''bye''\<rparr>"
  have f: "find (accepts (answer ?w) ?G) (word_cands 5 (answer ?w) ?G 5) = Some (0, 3, DOWN)"
    by code_simp
  have "case attempt_word 5 ?w (?G, [], 5) of (g', ps', t') \<Rightarrow>
      (case find (accepts (answer ?w) ?G) (word_cands 5 (answer ?w) ?G 5) of
         None \<Rightarrow> g' = ?G \<and> ps' = []
       | Some (r, c, d) \<Rightarrow>
           g' = placeWord (answer ?w) r c d ?G \<and> ps' = [] @ [mk_placement ?w r c d])"
    by (rule attempt_word_search_order[where sz = 5 and w = ?w and g = ?G and ps = "[]"
          and t = 5, THEN conjunct1])
  with f show ?thesis by (simp split: prod.splits)
qed

text \<open>
  Claim C6 as stated fails. With the words ATAXIA, APHASIA, THALAMUS, seed 1 and the 13
  by 13 grid, THALAMUS is placed first and ATAXIA crosses it. For APHASIA the source
  takes the first shuffled index of the letter A and tries it at every occurrence of A
  before it takes the next index, and places the word DOWN at \<open>(0, 6)\<close>; the order of the
  claim tries every index at the first occurrence of A and places it ACROSS at \<open>(1, 4)\<close>.
\<close>

theorem search_order_counterexample:
  "map (\<lambda>p. (answer p, row p, col p, dir p))
      (placements (generateCrosswordFromWords
         [\<lparr>answer = ''ATAXIA'', clue = ''''\<rparr>, \<lparr>answer = ''APHASIA'', clue = ''''\<rparr>,
          \<lparr>answer = ''THALAMUS'', clue = ''''\<rparr>] 1 13))
     = [(''THALAMUS'', 6, 2, ACROSS), (''ATAXIA'', 1, 4, DOWN), (''APHASIA'', 0, 6, DOWN)]
   \<and> map (\<lambda>p. (answer p, row p, col p, dir p))
      (placements (claimed_generate
         [\<lparr>answer = ''ATAXIA'', clue = ''''\<rparr>, \<lparr>answer = ''APHASIA'', clue = ''''\<rparr>,
          \<lparr>answer = ''THALAMUS'', clue = ''''\<rparr>] 1 13))
     = [(''THALAMUS'', 6, 2, ACROSS), (''ATAXIA'', 1, 4, DOWN), (''APHASIA'', 1, 4, ACROSS)]"
  by code_simp

subsection \<open>Writing into a grid\<close>

lemma square_makeEmptyGrid: "square (makeEmptyGrid S) S"
  by (simp add: square_def makeEmptyGrid_def)

lemma look_makeEmptyGrid: "look (makeEmptyGrid S) r c = None"
  by (auto simp: look_def makeEmptyGrid_def cell_at_def)

lemma square_cell_set: "square g S \<Longrightarrow> square (cell_set g r c v) S"
proof (cases "nat r < length g")
  case True
  assume sq: "square g S"
  then have "length (g ! nat r) = S" using True nth_mem by (auto simp: square_def)
  with sq show ?thesis
    by (auto simp: square_def cell_set_def dest!: set_update_subset_insert[THEN subsetD])
next
  case False
  assume "square g S"
  moreover have "g[nat r := (g ! nat r)[nat c := v]] = g"
    using False by (intro list_update_beyond) simp
  ultimately show ?thesis by (simp add: cell_set_def)
qed

lemma look_cell_set:
  assumes "square g S" "in_grid S r c"
  shows "look (cell_set g r c v) r' c' = (if r' = r \<and> c' = c then v else look g r' c')"
proof -
  have len: "length g = S" and rows: "\<And>k. k < S \<Longrightarrow> length (g ! k) = S"
    using assms(1) nth_mem by (auto simp: square_def)
  have r: "nat r < S" "0 \<le> r" and c: "nat c < S" "0 \<le> c"
    using assms(2) by (auto simp: in_grid_def)
  show ?thesis
  proof (cases "0 \<le> r' \<and> r' < int S \<and> 0 \<le> c' \<and> c' < int S")
    case False
    then have "look (cell_set g r c v) r' c' = None"
      using look_out[OF square_cell_set[OF assms(1)], of r' c' r c v] by (simp add: in_grid_def)
    moreover have "look g r' c' = None"
      using False look_out[OF assms(1), of r' c'] by (simp add: in_grid_def)
    moreover have "\<not> (r' = r \<and> c' = c)" using False assms(2) by (auto simp: in_grid_def)
    ultimately show ?thesis by auto
  next
    case True
    then have r': "nat r' < S" and c': "nat c' < S" by auto
    have eqr: "nat r' = nat r \<longleftrightarrow> r' = r" using True r by auto
    have eqc: "nat c' = nat c \<longleftrightarrow> c' = c" using True c by auto
    have "look (cell_set g r c v) r' c' = cell_at (cell_set g r c v) r' c'"
      by (rule look_in[OF square_cell_set[OF assms(1)]]) (use True in \<open>simp add: in_grid_def\<close>)
    moreover have "look g r' c' = cell_at g r' c'"
      by (rule look_in[OF assms(1)]) (use True in \<open>simp add: in_grid_def\<close>)
    moreover have "cell_at (cell_set g r c v) r' c' =
        (if r' = r \<and> c' = c then v else cell_at g r' c')"
      using r r' c c' len rows[of "nat r"] eqr eqc
      by (auto simp: cell_at_def cell_set_def nth_list_update)
    ultimately show ?thesis by simp
  qed
qed

lemma cover_inj:
  "cover_r d r0 i = cover_r d r0 j \<Longrightarrow> cover_c d c0 i = cover_c d c0 j \<Longrightarrow> i = j"
  by (cases d) (auto simp: cover_r_def cover_c_def)

text \<open>The loop of \<open>placeWord\<close> after its first \<open>n\<close> rounds.\<close>

lemma placeWord_prefix:
  assumes "square g S" "n \<le> length word"
    and "\<forall>i<length word. in_grid S (cover_r d r0 i) (cover_c d c0 i)"
  shows "square (fold (\<lambda>i g'. cell_set g' (cover_r d r0 i) (cover_c d c0 i) (Some (word ! i)))
                  [0..<n] g) S
       \<and> (\<forall>i<n. look (fold (\<lambda>i g'. cell_set g' (cover_r d r0 i) (cover_c d c0 i) (Some (word ! i)))
                    [0..<n] g) (cover_r d r0 i) (cover_c d c0 i) = Some (word ! i))
       \<and> (\<forall>r c. (\<forall>i<n. \<not> (r = cover_r d r0 i \<and> c = cover_c d c0 i)) \<longrightarrow>
             look (fold (\<lambda>i g'. cell_set g' (cover_r d r0 i) (cover_c d c0 i) (Some (word ! i)))
                    [0..<n] g) r c = look g r c)"
  using assms(2)
proof (induction n)
  case 0
  then show ?case using assms(1) by simp
next
  case (Suc n)
  let ?f = "\<lambda>i g'. cell_set g' (cover_r d r0 i) (cover_c d c0 i) (Some (word ! i))"
  let ?g = "fold ?f [0..<n] g"
  have IH1: "square ?g S"
    and IH2: "\<And>i. i < n \<Longrightarrow> look ?g (cover_r d r0 i) (cover_c d c0 i) = Some (word ! i)"
    and IH3: "\<And>r c. (\<forall>i<n. \<not> (r = cover_r d r0 i \<and> c = cover_c d c0 i)) \<Longrightarrow>
                look ?g r c = look g r c"
    using Suc by auto
  have inn: "in_grid S (cover_r d r0 n) (cover_c d c0 n)" using Suc.prems assms(3) by auto
  have step: "fold ?f [0..<Suc n] g = cell_set ?g (cover_r d r0 n) (cover_c d c0 n) (Some (word ! n))"
    by simp
  show ?case
  proof (intro conjI allI impI)
    show "square (fold ?f [0..<Suc n] g) S"
      unfolding step by (rule square_cell_set[OF IH1])
  next
    fix i assume i: "i < Suc n"
    show "look (fold ?f [0..<Suc n] g) (cover_r d r0 i) (cover_c d c0 i) = Some (word ! i)"
    proof (cases "i = n")
      case True
      then show ?thesis unfolding step look_cell_set[OF IH1 inn] by simp
    next
      case False
      then have "i < n" using i by simp
      moreover have "\<not> (cover_r d r0 i = cover_r d r0 n \<and> cover_c d c0 i = cover_c d c0 n)"
        using False cover_inj by blast
      ultimately show ?thesis
        unfolding step look_cell_set[OF IH1 inn] using IH2 by auto
    qed
  next
    fix r c assume h: "\<forall>i<Suc n. \<not> (r = cover_r d r0 i \<and> c = cover_c d c0 i)"
    then have "\<not> (r = cover_r d r0 n \<and> c = cover_c d c0 n)" by blast
    moreover have "look ?g r c = look g r c" by (rule IH3) (use h in auto)
    ultimately show "look (fold ?f [0..<Suc n] g) r c = look g r c"
      unfolding step look_cell_set[OF IH1 inn] by auto
  qed
qed

lemma placeWord_square:
  assumes "square g S" "\<forall>i<length word. in_grid S (cover_r d r0 i) (cover_c d c0 i)"
  shows "square (placeWord word r0 c0 d g) S"
  using placeWord_prefix[OF assms(1) order_refl assms(2)] by (simp add: placeWord_def)

lemma placeWord_look_covered:
  assumes "square g S" "\<forall>i<length word. in_grid S (cover_r d r0 i) (cover_c d c0 i)"
    and "i < length word"
  shows "look (placeWord word r0 c0 d g) (cover_r d r0 i) (cover_c d c0 i) = Some (word ! i)"
  using placeWord_prefix[OF assms(1) order_refl assms(2)] assms(3)
  by (simp add: placeWord_def)

lemma placeWord_look_other:
  assumes "square g S" "\<forall>i<length word. in_grid S (cover_r d r0 i) (cover_c d c0 i)"
    and "\<forall>i<length word. \<not> (r = cover_r d r0 i \<and> c = cover_c d c0 i)"
  shows "look (placeWord word r0 c0 d g) r c = look g r c"
  using placeWord_prefix[OF assms(1) order_refl assms(2)] assms(3)
  by (simp add: placeWord_def)

subsection \<open>What a placement of the search is\<close>

lemma findLetterPositions_mem:
  assumes "square g sz" "(pr, pc) \<in> set (findLetterPositions sz g L)"
  shows "in_grid sz pr pc \<and> look g pr pc = Some L"
proof -
  from assms(2) obtain r c where rc: "r < sz" "c < sz" "pr = int r" "pc = int c" "g ! r ! c = Some L"
    by (auto simp: findLetterPositions_def)
  then have ing: "in_grid sz pr pc" by (simp add: in_grid_def)
  moreover have "look g pr pc = cell_at g pr pc" by (rule look_in[OF assms(1) ing])
  ultimately show ?thesis using rc by (simp add: cell_at_def)
qed

lemma word_cands_crossing:
  assumes "square g sz" "(r, c, d) \<in> set (word_cands sz word g t)"
  shows "\<exists>i<length word. look g (cover_r d r i) (cover_c d c i) = Some (word ! i)"
proof -
  obtain Ls t1 where sh: "shuffleInPlace (set_order [] word) t = (Ls, t1)"
    by (cases "shuffleInPlace (set_order [] word) t")
  from assms(2) obtain L idxs where plan: "(L, idxs) \<in> set (search_plan word sz g Ls t1)"
    and mem: "(r, c, d) \<in> set (letter_cands (findLetterPositions sz g L) idxs)"
    by (auto simp: word_cands_def sh)
  from mem obtain i pr pc where i: "i \<in> set idxs"
    and pos: "(pr, pc) \<in> set (findLetterPositions sz g L)"
    and x: "(r, c, d) = (pr, pc - int i, ACROSS) \<or> (r, c, d) = (pr - int i, pc, DOWN)"
    by (auto simp: letter_cands_def cands_of_def)
  have "mset idxs = mset (filter (\<lambda>i. word ! i = L) [0..<length word])"
    using search_plan_idxs[OF plan] by simp
  then have "set idxs = set (filter (\<lambda>i. word ! i = L) [0..<length word])"
    by (metis set_mset_mset)
  with i have il: "i < length word" and wl: "word ! i = L" by auto
  have "look g pr pc = Some L" using findLetterPositions_mem[OF assms(1) pos] by simp
  moreover have "cover_r d r i = pr \<and> cover_c d c i = pc"
    using x by (auto simp: cover_r_def cover_c_def)
  ultimately show ?thesis using il wl by auto
qed

lemma find_SomeD: "find P xs = Some x \<Longrightarrow> P x \<and> x \<in> set xs"
  by (induction xs) (auto split: if_splits)

lemma attempt_word_cases:
  assumes "attempt_word sz w (g, ps, t) = (g', ps', t')"
  shows "(g' = g \<and> ps' = ps) \<or>
         (\<exists>r c d. canPlace (answer w) r c d g \<and> (r, c, d) \<in> set (word_cands sz (answer w) g t)
            \<and> g' = placeWord (answer w) r c d g \<and> ps' = ps @ [mk_placement w r c d])"
proof -
  obtain Ls t1 where sh: "shuffleInPlace (set_order [] (answer w)) t = (Ls, t1)"
    by (cases "shuffleInPlace (set_order [] (answer w)) t")
  obtain found t2 where tl: "try_letters (answer w) sz g Ls t1 = (found, t2)"
    by (cases "try_letters (answer w) sz g Ls t1")
  have f: "found = find (accepts (answer w) g) (word_cands sz (answer w) g t)"
    using try_letters_find[of "answer w" sz g Ls t1] by (simp add: word_cands_def sh tl)
  show ?thesis
  proof (cases found)
    case None
    then show ?thesis using assms by (simp add: attempt_word_def sh tl)
  next
    case (Some x)
    obtain r c d where x: "x = (r, c, d)" by (cases x)
    from f Some have "find (accepts (answer w) g) (word_cands sz (answer w) g t) = Some x"
      by simp
    then have "accepts (answer w) g x" "x \<in> set (word_cands sz (answer w) g t)"
      by (simp_all add: find_SomeD)
    then have "canPlace (answer w) r c d g" "(r, c, d) \<in> set (word_cands sz (answer w) g t)"
      by (simp_all add: x accepts_def)
    then show ?thesis using assms Some x by (auto simp: attempt_word_def sh tl)
  qed
qed

subsection \<open>Placements agree with the grid and cover it\<close>

lemma covers_mk_placement:
  "covers (mk_placement w r c d) r' c' \<longleftrightarrow>
     (\<exists>i<length (answer w). r' = cover_r d r i \<and> c' = cover_c d c i)"
  by (simp add: covers_def mk_placement_def)

lemma canPlace_in_grid:
  assumes "square g S" "canPlace word r c d g"
  shows "\<forall>i<length word. in_grid S (cover_r d r i) (cover_c d c i)"
proof (cases "word = []")
  case True
  then show ?thesis by simp
next
  case False
  show ?thesis
    using canPlace_across[OF assms(1) False, of r c] canPlace_down[OF assms(1) False, of r c]
      assms(2)
    by (cases d) (auto simp: cover_r_def cover_c_def)
qed

lemma canPlace_cells:
  assumes "square g S" "canPlace word r c d g" "i < length word"
  shows "look g (cover_r d r i) (cover_c d c i) = Some (word ! i)
       \<or> look g (cover_r d r i) (cover_c d c i) = None"
proof -
  have ne: "word \<noteq> []" using assms(3) by auto
  show ?thesis
    using canPlace_across[OF assms(1) ne, of r c] canPlace_down[OF assms(1) ne, of r c]
      assms(2,3)
    by (cases d) (auto simp: cover_r_def cover_c_def)
qed

lemma inv_place:
  assumes "trial_inv S g ps"
    and ing: "\<forall>i<length (answer w). in_grid S (cover_r d r i) (cover_c d c i)"
    and cells: "\<forall>i<length (answer w).
       look g (cover_r d r i) (cover_c d c i) = Some (answer w ! i)
     \<or> look g (cover_r d r i) (cover_c d c i) = None"
  shows "trial_inv S (placeWord (answer w) r c d g) (ps @ [mk_placement w r c d])"
proof -
  let ?g' = "placeWord (answer w) r c d g"
  let ?p = "mk_placement w r c d"
  have sq: "square g S" and ib: "inb S ps" and co: "consistent g ps" and cv: "covered g ps"
    using assms(1) by (simp_all add: trial_inv_def)
  have new: "\<And>i. i < length (answer w) \<Longrightarrow>
       look ?g' (cover_r d r i) (cover_c d c i) = Some (answer w ! i)"
    by (rule placeWord_look_covered[OF sq ing])
  have old: "\<And>r' c'. \<forall>i<length (answer w). \<not> (r' = cover_r d r i \<and> c' = cover_c d c i) \<Longrightarrow>
       look ?g' r' c' = look g r' c'"
    by (rule placeWord_look_other[OF sq ing])
  have keep: "look ?g' r' c' = Some x" if "look g r' c' = Some x" for r' c' x
  proof (cases "\<exists>i<length (answer w). r' = cover_r d r i \<and> c' = cover_c d c i")
    case True
    then obtain i where i: "i < length (answer w)" "r' = cover_r d r i" "c' = cover_c d c i"
      by blast
    with cells that have "x = answer w ! i" by auto
    with new[OF i(1)] i show ?thesis by simp
  next
    case False
    with old[of r' c'] that show ?thesis by auto
  qed
  have 1: "square ?g' S" by (rule placeWord_square[OF sq ing])
  have 2: "inb S (ps @ [?p])"
    using ib ing by (auto simp: inb_def mk_placement_def)
  have 3: "consistent ?g' (ps @ [?p])"
    using co new keep by (auto simp: consistent_def mk_placement_def)
  have 4: "covered ?g' (ps @ [?p])"
    unfolding covered_def
  proof (intro allI impI)
    fix r' c' assume ne: "look ?g' r' c' \<noteq> None"
    show "\<exists>p\<in>set (ps @ [?p]). covers p r' c'"
    proof (cases "\<exists>i<length (answer w). r' = cover_r d r i \<and> c' = cover_c d c i")
      case True
      then have "covers ?p r' c'" by (simp add: covers_mk_placement)
      then show ?thesis by auto
    next
      case False
      with old[of r' c'] ne have "look g r' c' \<noteq> None" by auto
      with cv show ?thesis by (auto simp: covered_def)
    qed
  qed
  from 1 2 3 4 show ?thesis by (simp add: trial_inv_def)
qed

lemma inv_attempt_word:
  assumes "trial_inv S g ps" "attempt_word sz w (g, ps, t) = (g', ps', t')"
  shows "trial_inv S g' ps'"
proof -
  have sq: "square g S" using assms(1) by (simp add: trial_inv_def)
  from attempt_word_cases[OF assms(2)] show ?thesis
  proof
    assume "g' = g \<and> ps' = ps"
    with assms(1) show ?thesis by simp
  next
    assume "\<exists>r c d. canPlace (answer w) r c d g \<and> (r, c, d) \<in> set (word_cands sz (answer w) g t)
            \<and> g' = placeWord (answer w) r c d g \<and> ps' = ps @ [mk_placement w r c d]"
    then obtain r c d where cp: "canPlace (answer w) r c d g"
      and g': "g' = placeWord (answer w) r c d g" and ps': "ps' = ps @ [mk_placement w r c d]"
      by blast
    show ?thesis
      unfolding g' ps'
      by (rule inv_place[OF assms(1) canPlace_in_grid[OF sq cp]])
         (use canPlace_cells[OF sq cp] in blast)
  qed
qed

lemma inv_fold_attempt:
  assumes "trial_inv S g ps" "fold (attempt_word sz) ws (g, ps, t) = (g', ps', t')"
  shows "trial_inv S g' ps'"
  using assms
proof (induction ws arbitrary: g ps t)
  case Nil
  then show ?case by simp
next
  case (Cons w ws)
  obtain g1 ps1 t1 where a: "attempt_word sz w (g, ps, t) = (g1, ps1, t1)"
    by (cases "attempt_word sz w (g, ps, t)")
  have "trial_inv S g1 ps1" by (rule inv_attempt_word[OF Cons.prems(1) a])
  moreover have "fold (attempt_word sz) ws (g1, ps1, t1) = (g', ps', t')"
    using Cons.prems(2) by (simp add: a)
  ultimately show ?case by (rule Cons.IH)
qed

lemma first_word_fits:
  assumes "0 < sz" "len \<le> sz" "i < len"
  shows "in_grid sz (int (sz div 2))
           (max 0 (min (int sz - int len) (int (sz div 2) - int (len div 2))) + int i)"
  using assms by (auto simp: in_grid_def max_def min_def)

lemma inv_first:
  assumes "0 < sz" "length (answer w) \<le> sz"
  shows "trial_inv sz (placeWord (answer w) (int (sz div 2))
                  (max 0 (min (int sz - int (length (answer w)))
                     (int (sz div 2) - int (length (answer w) div 2)))) ACROSS (makeEmptyGrid sz))
            [mk_placement w (int (sz div 2))
               (max 0 (min (int sz - int (length (answer w)))
                  (int (sz div 2) - int (length (answer w) div 2)))) ACROSS]"
proof -
  have e: "trial_inv sz (makeEmptyGrid sz) []"
    by (simp add: trial_inv_def square_makeEmptyGrid inb_def consistent_def covered_def
        look_makeEmptyGrid)
  show ?thesis
    using inv_place[OF e, of w ACROSS "int (sz div 2)"
        "max 0 (min (int sz - int (length (answer w)))
           (int (sz div 2) - int (length (answer w) div 2)))"]
      first_word_fits[OF assms]
    by (simp add: cover_r_def cover_c_def look_makeEmptyGrid)
qed

subsection \<open>Every placed word crosses an earlier one\<close>

lemma shares_sym: "shares p q \<Longrightarrow> shares q p"
  by (auto simp: shares_def)

lemma interlocked_snoc:
  assumes "ps \<noteq> []" "linked ps" "p \<in> set ps" "shares q p"
  shows "interlocked (ps @ [q])"
  unfolding interlocked_def
proof (intro allI impI)
  fix i assume i: "i < length (ps @ [q])"
  obtain k where k: "k < length ps" "ps ! k = p"
    using assms(3) by (auto simp: in_set_conv_nth)
  show "\<exists>j<length (ps @ [q]). j \<noteq> i \<and> shares ((ps @ [q]) ! i) ((ps @ [q]) ! j)"
  proof (cases "i < length ps")
    case False
    with i have "i = length ps" by simp
    then show ?thesis using k assms(4) by (intro exI[of _ k]) (auto simp: nth_append)
  next
    case True
    show ?thesis
    proof (cases "1 < length ps")
      case True2: True
      then have "interlocked ps" using assms(2) by (simp add: linked_def)
      then obtain j where "j < length ps" "j \<noteq> i" "shares (ps ! i) (ps ! j)"
        using True by (auto simp: interlocked_def)
      then show ?thesis using True by (intro exI[of _ j]) (auto simp: nth_append)
    next
      case False
      with assms(1) have "length ps = 1" by (cases ps) auto
      with True k have "i = 0" "k = 0" by auto
      with k True assms(4) show ?thesis
        by (intro exI[of _ "length ps"]) (auto simp: nth_append shares_sym)
    qed
  qed
qed

lemma linked_attempt_word:
  assumes "trial_inv S g ps" "ps \<noteq> []" "linked ps" "sz = S"
    and "attempt_word sz w (g, ps, t) = (g', ps', t')"
  shows "ps' \<noteq> [] \<and> linked ps'"
proof -
  have sq: "square g sz" and cv: "covered g ps" using assms(1,4) by (simp_all add: trial_inv_def)
  from attempt_word_cases[OF assms(5)] show ?thesis
  proof
    assume "g' = g \<and> ps' = ps"
    with assms show ?thesis by simp
  next
    assume "\<exists>r c d. canPlace (answer w) r c d g \<and> (r, c, d) \<in> set (word_cands sz (answer w) g t)
            \<and> g' = placeWord (answer w) r c d g \<and> ps' = ps @ [mk_placement w r c d]"
    then obtain r c d where cand: "(r, c, d) \<in> set (word_cands sz (answer w) g t)"
      and ps': "ps' = ps @ [mk_placement w r c d]"
      by blast
    from word_cands_crossing[OF sq cand] obtain i where i: "i < length (answer w)"
      "look g (cover_r d r i) (cover_c d c i) = Some (answer w ! i)" by blast
    then obtain p where p: "p \<in> set ps" "covers p (cover_r d r i) (cover_c d c i)"
      using cv by (auto simp: covered_def)
    have "covers (mk_placement w r c d) (cover_r d r i) (cover_c d c i)"
      using i(1) by (auto simp: covers_mk_placement)
    with p have "shares (mk_placement w r c d) p" by (auto simp: shares_def)
    then have "interlocked ps'"
      unfolding ps' by (rule interlocked_snoc[OF assms(2,3) p(1)])
    then show ?thesis by (simp add: ps' linked_def)
  qed
qed

lemma linked_fold_attempt:
  assumes "trial_inv S g ps" "ps \<noteq> []" "linked ps"
    and "fold (attempt_word S) ws (g, ps, t) = (g', ps', t')"
  shows "ps' \<noteq> [] \<and> linked ps'"
  using assms
proof (induction ws arbitrary: g ps t)
  case Nil
  then show ?case by simp
next
  case (Cons w ws)
  obtain g1 ps1 t1 where a: "attempt_word S w (g, ps, t) = (g1, ps1, t1)"
    by (cases "attempt_word S w (g, ps, t)")
  have i1: "trial_inv S g1 ps1" by (rule inv_attempt_word[OF Cons.prems(1) a])
  have l1: "ps1 \<noteq> [] \<and> linked ps1"
    by (rule linked_attempt_word[OF Cons.prems(1,2,3) refl a])
  have "fold (attempt_word S) ws (g1, ps1, t1) = (g', ps', t')"
    using Cons.prems(4) by (simp add: a)
  with i1 l1 show ?case using Cons.IH by blast
qed

subsection \<open>The coverage counts\<close>

lemma cell_at_cell_set:
  assumes "square g S" "in_grid S r c" "in_grid S r' c'"
  shows "cell_at (cell_set g r c v) r' c' = (if r' = r \<and> c' = c then v else cell_at g r' c')"
proof -
  have len: "length g = S" and rows: "\<And>k. k < S \<Longrightarrow> length (g ! k) = S"
    using assms(1) nth_mem by (auto simp: square_def)
  have r: "nat r < S" "0 \<le> r" and c: "nat c < S" "0 \<le> c"
    using assms(2) by (auto simp: in_grid_def)
  have r': "nat r' < S" "0 \<le> r'" and c': "nat c' < S" "0 \<le> c'"
    using assms(3) by (auto simp: in_grid_def)
  have eqr: "nat r' = nat r \<longleftrightarrow> r' = r" using r r' by auto
  have eqc: "nat c' = nat c \<longleftrightarrow> c' = c" using c c' by auto
  show ?thesis
    using r r' c c' len rows[of "nat r"] eqr eqc
    by (auto simp: cell_at_def cell_set_def nth_list_update)
qed

lemma count_inner:
  assumes "square cnt S" "n \<le> len" "\<forall>i<len. in_grid S (cover_r d r0 i) (cover_c d c0 i)"
  shows "square (fold (\<lambda>i cnt'. let r = cover_r d r0 i; c = cover_c d c0 i
                        in cell_set cnt' r c (cell_at cnt' r c + 1)) [0..<n] cnt) S
       \<and> (\<forall>r c. in_grid S r c \<longrightarrow>
            cell_at (fold (\<lambda>i cnt'. let r = cover_r d r0 i; c = cover_c d c0 i
                        in cell_set cnt' r c (cell_at cnt' r c + 1)) [0..<n] cnt) r c
            = cell_at cnt r c
              + (if \<exists>i<n. r = cover_r d r0 i \<and> c = cover_c d c0 i then 1 else (0::nat)))"
  using assms(2)
proof (induction n)
  case 0
  then show ?case using assms(1) by simp
next
  case (Suc n)
  let ?f = "\<lambda>i cnt'. let r = cover_r d r0 i; c = cover_c d c0 i
                        in cell_set cnt' r c (cell_at cnt' r c + (1::nat))"
  let ?m = "fold ?f [0..<n] cnt"
  have IH1: "square ?m S"
    and IH2: "\<And>r c. in_grid S r c \<Longrightarrow> cell_at ?m r c
            = cell_at cnt r c + (if \<exists>i<n. r = cover_r d r0 i \<and> c = cover_c d c0 i then 1 else 0)"
    using Suc by auto
  have inn: "in_grid S (cover_r d r0 n) (cover_c d c0 n)" using Suc.prems assms(3) by auto
  have step: "fold ?f [0..<Suc n] cnt =
      cell_set ?m (cover_r d r0 n) (cover_c d c0 n) (cell_at ?m (cover_r d r0 n) (cover_c d c0 n) + 1)"
    by (simp add: Let_def)
  have fresh: "\<not> (\<exists>i<n. cover_r d r0 n = cover_r d r0 i \<and> cover_c d c0 n = cover_c d c0 i)"
    using cover_inj by blast
  show ?case
  proof (intro conjI allI impI)
    show "square (fold ?f [0..<Suc n] cnt) S"
      unfolding step by (rule square_cell_set[OF IH1])
  next
    fix r c assume rc: "in_grid S r c"
    show "cell_at (fold ?f [0..<Suc n] cnt) r c
            = cell_at cnt r c
              + (if \<exists>i<Suc n. r = cover_r d r0 i \<and> c = cover_c d c0 i then 1 else 0)"
    proof (cases "r = cover_r d r0 n \<and> c = cover_c d c0 n")
      case True
      then show ?thesis
        unfolding step cell_at_cell_set[OF IH1 inn rc] using IH2[OF inn] fresh by auto
    next
      case False
      then have "(\<exists>i<Suc n. r = cover_r d r0 i \<and> c = cover_c d c0 i)
               \<longleftrightarrow> (\<exists>i<n. r = cover_r d r0 i \<and> c = cover_c d c0 i)"
        by (auto simp: less_Suc_eq)
      then show ?thesis
        unfolding step cell_at_cell_set[OF IH1 inn rc] using IH2[OF rc] False by auto
    qed
  qed
qed

lemma count_outer:
  assumes "square cnt S" "inb S ps"
  shows "square (fold (\<lambda>p cnt. fold (\<lambda>i cnt'.
             let r = cover_r (dir p) (row p) i; c = cover_c (dir p) (col p) i
             in cell_set cnt' r c (cell_at cnt' r c + 1)) [0..<length (answer p)] cnt) ps cnt) S
       \<and> (\<forall>r c. in_grid S r c \<longrightarrow>
            cell_at (fold (\<lambda>p cnt. fold (\<lambda>i cnt'.
             let r = cover_r (dir p) (row p) i; c = cover_c (dir p) (col p) i
             in cell_set cnt' r c (cell_at cnt' r c + 1)) [0..<length (answer p)] cnt) ps cnt) r c
            = cell_at cnt r c + length (filter (\<lambda>p. covers p r c) ps))"
  using assms
proof (induction ps arbitrary: cnt)
  case Nil
  then show ?case by simp
next
  case (Cons p ps)
  let ?inner = "\<lambda>p cnt. fold (\<lambda>i cnt'.
             let r = cover_r (dir p) (row p) i; c = cover_c (dir p) (col p) i
             in cell_set cnt' r c (cell_at cnt' r c + (1::nat))) [0..<length (answer p)] cnt"
  have pin: "\<forall>i<length (answer p). in_grid S (cover_r (dir p) (row p) i) (cover_c (dir p) (col p) i)"
    using Cons.prems(2) by (simp add: inb_def)
  have rest: "inb S ps" using Cons.prems(2) by (simp add: inb_def)
  from count_inner[OF Cons.prems(1) order_refl pin]
  have sq1: "square (?inner p cnt) S"
    and v1: "\<And>r c. in_grid S r c \<Longrightarrow> cell_at (?inner p cnt) r c
         = cell_at cnt r c + (if covers p r c then 1 else 0)"
    by (auto simp: covers_def)
  from Cons.IH[OF sq1 rest]
  have sq2: "square (fold ?inner ps (?inner p cnt)) S"
    and v2: "\<And>r c. in_grid S r c \<Longrightarrow> cell_at (fold ?inner ps (?inner p cnt)) r c
         = cell_at (?inner p cnt) r c + length (filter (\<lambda>p. covers p r c) ps)"
    by auto
  show ?case
    using sq2 v2 v1 by auto
qed

lemma count_cells_eq:
  assumes "inb S ps" "in_grid S r c"
  shows "cell_at (count_cells S S ps) r c = length (filter (\<lambda>p. covers p r c) ps)"
proof -
  have sq: "square (replicate S (replicate S (0::nat))) S" by (simp add: square_def)
  have z: "cell_at (replicate S (replicate S (0::nat))) r c = 0"
  proof -
    have "nat r < S" "nat c < S" using assms(2) by (auto simp: in_grid_def)
    then show ?thesis by (simp add: cell_at_def)
  qed
  show ?thesis
    unfolding count_cells_def using count_outer[OF sq assms(1)] assms(2) z by simp
qed

lemma two_in_filter:
  assumes "i < length xs" "j < length xs" "i \<noteq> j" "P (xs ! i)" "P (xs ! j)"
  shows "1 < length (filter P xs)"
proof -
  have "\<And>i j. i < j \<Longrightarrow> j < length xs \<Longrightarrow> P (xs ! i) \<Longrightarrow> P (xs ! j) \<Longrightarrow> 1 < length (filter P xs)"
  proof -
    fix i j assume ij: "i < j" "j < length xs" "P (xs ! i)" "P (xs ! j)"
    have xs: "xs = take j xs @ xs ! j # drop (Suc j) xs"
      using ij(2) by (simp add: id_take_nth_drop)
    have "xs ! i \<in> set (take j xs)" using ij(1,2) by (auto simp: in_set_conv_nth)
    then have "filter P (take j xs) \<noteq> []" using ij(3) by (auto simp: filter_empty_conv)
    then have "0 < length (filter P (take j xs))" by simp
    moreover have "length (filter P xs) =
        length (filter P (take j xs)) + length (filter P (xs ! j # drop (Suc j) xs))"
      by (subst xs) simp
    ultimately show "1 < length (filter P xs)" using ij(4) by simp
  qed
  then show ?thesis using assms by (cases "i < j") (auto simp: not_less le_less)
qed

lemma crossed_if_shared:
  assumes "inb S ps" "i < length ps" "j < length ps" "i \<noteq> j" "shares (ps ! i) (ps ! j)"
  shows "crossed (count_cells S S ps) (ps ! i)"
proof -
  from assms(5) obtain r c where rc: "covers (ps ! i) r c" "covers (ps ! j) r c"
    by (auto simp: shares_def)
  then obtain k where k: "k < length (answer (ps ! i))"
    "r = cover_r (dir (ps ! i)) (row (ps ! i)) k" "c = cover_c (dir (ps ! i)) (col (ps ! i)) k"
    by (auto simp: covers_def)
  have ing: "in_grid S r c" using assms(1,2) k by (auto simp: inb_def)
  have "1 < length (filter (\<lambda>p. covers p r c) ps)"
    by (rule two_in_filter[OF assms(2,3,4)]) (use rc in auto)
  then have "1 < cell_at (count_cells S S ps) r c"
    by (simp add: count_cells_eq[OF assms(1) ing])
  then show ?thesis using k by (auto simp: crossed_def list_ex_iff)
qed

lemma prune_noop:
  assumes "square g S" "0 < S" "inb S ps" "linked ps"
  shows "pruneIsolatedWords g ps = (g, ps)"
proof (cases "length ps \<le> 1")
  case True
  then show ?thesis by (simp add: pruneIsolatedWords_def)
next
  case False
  then have il: "interlocked ps" using assms(4) by (simp add: linked_def)
  have H: "length g = S" using assms(1) by (simp add: square_def)
  have W: "length (g ! 0) = S" using assms(1,2) nth_mem by (auto simp: square_def)
  have "\<forall>p\<in>set ps. crossed (count_cells S S ps) p"
  proof
    fix p assume "p \<in> set ps"
    then obtain i where i: "i < length ps" "ps ! i = p" by (auto simp: in_set_conv_nth)
    from il i(1) obtain j where "j < length ps" "j \<noteq> i" "shares (ps ! i) (ps ! j)"
      by (auto simp: interlocked_def)
    then show "crossed (count_cells S S ps) p"
      using crossed_if_shared[OF assms(3) i(1), of j] i(2) by auto
  qed
  then have "filter (crossed (count_cells S S ps)) ps = ps" by (simp add: filter_id_conv)
  then show ?thesis by (simp add: pruneIsolatedWords_def Let_def H W)
qed

subsection \<open>Start cells lie on the grid\<close>

lemma start_first:
  assumes "0 < sz"
  shows "in_grid sz (int (sz div 2))
           (max 0 (min (int sz - int len) (int (sz div 2) - int (len div 2))))"
  using assms by (auto simp: in_grid_def max_def min_def)

lemma starts_attempt_word:
  assumes "square g sz" "\<forall>p\<in>set ps. in_grid sz (row p) (col p)"
    and "attempt_word sz w (g, ps, t) = (g', ps', t')"
  shows "\<forall>p\<in>set ps'. in_grid sz (row p) (col p)"
proof -
  from attempt_word_cases[OF assms(3)] show ?thesis
  proof
    assume "g' = g \<and> ps' = ps"
    with assms(2) show ?thesis by simp
  next
    assume "\<exists>r c d. canPlace (answer w) r c d g \<and> (r, c, d) \<in> set (word_cands sz (answer w) g t)
            \<and> g' = placeWord (answer w) r c d g \<and> ps' = ps @ [mk_placement w r c d]"
    then obtain r c d where cp: "canPlace (answer w) r c d g"
      and cand: "(r, c, d) \<in> set (word_cands sz (answer w) g t)"
      and ps': "ps' = ps @ [mk_placement w r c d]"
      by blast
    from word_cands_crossing[OF assms(1) cand] have "0 < length (answer w)" by auto
    with canPlace_in_grid[OF assms(1) cp]
    have "in_grid sz (cover_r d r 0) (cover_c d c 0)" by blast
    then have "in_grid sz r c" by (cases d) (simp_all add: cover_r_def cover_c_def)
    with assms(2) show ?thesis by (auto simp: ps' mk_placement_def)
  qed
qed

lemma starts_fold_attempt:
  assumes "trial_inv sz g ps" "\<forall>p\<in>set ps. in_grid sz (row p) (col p)"
    and "fold (attempt_word sz) ws (g, ps, t) = (g', ps', t')"
  shows "\<forall>p\<in>set ps'. in_grid sz (row p) (col p)"
  using assms
proof (induction ws arbitrary: g ps t)
  case Nil
  then show ?case by simp
next
  case (Cons w ws)
  obtain g1 ps1 t1 where a: "attempt_word sz w (g, ps, t) = (g1, ps1, t1)"
    by (cases "attempt_word sz w (g, ps, t)")
  have i1: "trial_inv sz g1 ps1" by (rule inv_attempt_word[OF Cons.prems(1) a])
  have sq: "square g sz" using Cons.prems(1) by (simp add: trial_inv_def)
  have s1: "\<forall>p\<in>set ps1. in_grid sz (row p) (col p)"
    by (rule starts_attempt_word[OF sq Cons.prems(2) a])
  have "fold (attempt_word sz) ws (g1, ps1, t1) = (g', ps', t')"
    using Cons.prems(3) by (simp add: a)
  with i1 s1 show ?case using Cons.IH by blast
qed

subsection \<open>The result of a trial\<close>

lemma covers_number [simp]: "covers (p\<lparr>number := x\<rparr>) r c = covers p r c"
  by (simp add: covers_def)

lemma shares_number [simp]: "shares (p\<lparr>number := x\<rparr>) (q\<lparr>number := y\<rparr>) = shares p q"
  by (simp add: shares_def)

lemma inb_number: "inb S (map (\<lambda>p. p\<lparr>number := f p\<rparr>) ps) = inb S ps"
  by (simp add: inb_def)

lemma consistent_number: "consistent g (map (\<lambda>p. p\<lparr>number := f p\<rparr>) ps) = consistent g ps"
  by (simp add: consistent_def)

lemma covered_number: "covered g (map (\<lambda>p. p\<lparr>number := f p\<rparr>) ps) = covered g ps"
  by (simp add: covered_def)

lemma interlocked_number: "interlocked (map (\<lambda>p. p\<lparr>number := f p\<rparr>) ps) = interlocked ps"
  by (simp add: interlocked_def cong: conj_cong)

lemma inv_number: "trial_inv S g (map (\<lambda>p. p\<lparr>number := f p\<rparr>) ps) = trial_inv S g ps"
  by (simp add: trial_inv_def inb_number consistent_number covered_number)

lemma linked_number: "linked (map (\<lambda>p. p\<lparr>number := f p\<rparr>) ps) = linked ps"
  by (simp add: linked_def interlocked_number)

lemma generate_empty:
  "generateCrosswordFromWords [] seed sz =
     \<lparr>grid = makeEmptyGrid sz, placements = [], numbers = [],
      bounds = \<lparr>minR = 0, maxR = int sz - 1, minC = 0, maxC = int sz - 1\<rparr>\<rparr>"
  by (simp add: generateCrosswordFromWords_def shuffleInPlace_def Let_def)

text \<open>
  A trial on at least one word that fits: the grid and the placements after the
  placement loop satisfy the invariant and are interlocked, pruning changes nothing, and
  the result carries that grid, its numbering, and those placements with their numbers.
\<close>

lemma generate_result:
  assumes "fits sz ws" "ws \<noteq> []"
  shows "\<exists>g ps. trial_inv sz g ps \<and> ps \<noteq> [] \<and> linked ps
           \<and> (\<forall>p\<in>set ps. in_grid sz (row p) (col p))
           \<and> grid (generateCrosswordFromWords ws seed sz) = g
           \<and> numbers (generateCrosswordFromWords ws seed sz) = compute_numbers sz g
           \<and> placements (generateCrosswordFromWords ws seed sz)
               = map (\<lambda>p. p\<lparr>number := cell_at (compute_numbers sz g) (row p) (col p)\<rparr>) ps"
proof -
  obtain copy t1 where sh: "shuffleInPlace ws (mulberry32 seed) = (copy, t1)"
    by (cases "shuffleInPlace ws (mulberry32 seed)")
  have cs: "set copy = set ws" and cl: "length copy = length ws"
    using shuffleInPlace_set[of ws "mulberry32 seed"] shuffleInPlace_length[of ws "mulberry32 seed"]
    by (simp_all add: sh)
  from cl assms(2) obtain first rest where copy: "copy = first # rest" by (cases copy) auto
  have sz: "0 < sz" and fl: "length (answer first) \<le> sz"
    using assms(1) cs by (auto simp: fits_def copy)
  define mid where "mid = int (sz div 2)"
  define startCol where "startCol = max 0 (min (int sz - int (length (answer first)))
                     (mid - int (length (answer first) div 2)))"
  define g1 where "g1 = placeWord (answer first) mid startCol ACROSS (makeEmptyGrid sz)"
  define ps1 where "ps1 = [mk_placement first mid startCol ACROSS]"
  obtain g2 ps2 t2 where fo: "fold (attempt_word sz) rest (g1, ps1, t1) = (g2, ps2, t2)"
    by (cases "fold (attempt_word sz) rest (g1, ps1, t1)") auto
  have i1: "trial_inv sz g1 ps1"
    unfolding g1_def ps1_def startCol_def mid_def by (rule inv_first[OF sz fl])
  have l1: "linked ps1" by (simp add: ps1_def linked_def)
  have i2: "trial_inv sz g2 ps2" by (rule inv_fold_attempt[OF i1 fo])
  have l2: "ps2 \<noteq> [] \<and> linked ps2"
    by (rule linked_fold_attempt[OF i1 _ l1 fo]) (simp add: ps1_def)
  have s1: "\<forall>p\<in>set ps1. in_grid sz (row p) (col p)"
    unfolding ps1_def startCol_def mid_def using start_first[OF sz]
    by (simp add: mk_placement_def)
  have s2: "\<forall>p\<in>set ps2. in_grid sz (row p) (col p)"
    by (rule starts_fold_attempt[OF i1 s1 fo])
  have pr: "pruneIsolatedWords g2 ps2 = (g2, ps2)"
    by (rule prune_noop[of g2 sz]) (use i2 l2 sz in \<open>auto simp: trial_inv_def\<close>)
  have "grid (generateCrosswordFromWords ws seed sz) = g2
      \<and> numbers (generateCrosswordFromWords ws seed sz) = compute_numbers sz g2
      \<and> placements (generateCrosswordFromWords ws seed sz)
               = map (\<lambda>p. p\<lparr>number := cell_at (compute_numbers sz g2) (row p) (col p)\<rparr>) ps2"
    using fo pr
    by (simp add: generateCrosswordFromWords_def sh copy Let_def
        mid_def[symmetric] startCol_def[symmetric] g1_def[symmetric] ps1_def[symmetric])
  with i2 l2 s2 show ?thesis by blast
qed

lemma generate_inv:
  assumes "fits sz ws"
  shows "trial_inv sz (grid (generateCrosswordFromWords ws seed sz))
                (placements (generateCrosswordFromWords ws seed sz))
       \<and> linked (placements (generateCrosswordFromWords ws seed sz))"
proof (cases "ws = []")
  case True
  then show ?thesis
    by (simp add: generate_empty trial_inv_def square_makeEmptyGrid inb_def consistent_def
        covered_def look_makeEmptyGrid linked_def)
next
  case False
  from generate_result[OF assms False, of seed] show ?thesis
    by (auto simp: inv_number linked_number)
qed

lemma orchestrate_is_trial:
  "\<exists>s. orchestrate ws seed sz minW maxS = generateCrosswordFromWords ws (seed + int s) sz"
proof (cases "maxS = 0")
  case True
  then have "orchestrate ws seed sz minW maxS = generateCrosswordFromWords ws (seed + int 0) sz"
    by (simp add: orchestrate_def orch_loop_done)
  then show ?thesis by blast
next
  case False
  show ?thesis
  proof (cases "\<exists>s<maxS. placedCount ws seed sz s \<ge> minW")
    case True
    then obtain s where s: "s < maxS" "placedCount ws seed sz s \<ge> minW"
      and least: "\<forall>k < s. \<not> (k < maxS \<and> placedCount ws seed sz k \<ge> minW)"
      using exists_least_iff[of "\<lambda>s. s < maxS \<and> placedCount ws seed sz s \<ge> minW"] by blast
    have below: "\<forall>k. 0 \<le> k \<and> k < s \<longrightarrow> placedCount ws seed sz k < minW"
    proof (intro allI impI)
      fix k assume k: "0 \<le> k \<and> k < s"
      then have "k < maxS" using s(1) by simp
      with least k show "placedCount ws seed sz k < minW" by (simp add: not_le)
    qed
    have "orch_loop ws seed sz minW maxS 0 None = trial ws seed sz s"
      by (rule orch_loop_threshold[OF _ s(1) s(2) below]) simp
    then have "orchestrate ws seed sz minW maxS = trial ws seed sz s"
      by (simp only: orchestrate_def)
    then show ?thesis by (auto simp: trial_def)
  next
    case F: False
    then have "\<forall>s<maxS. placedCount ws seed sz s < minW" by (auto simp: not_le)
    moreover have "0 < maxS" using False by simp
    ultimately obtain b where "orchestrate ws seed sz minW maxS = trial ws seed sz b"
      using orchestrate_best[of maxS ws seed sz minW] by blast
    then show ?thesis by (auto simp: trial_def)
  qed
qed

lemma orchestrate_inv:
  assumes "fits sz ws"
  shows "trial_inv sz (grid (orchestrate ws seed sz minW maxS))
                (placements (orchestrate ws seed sz minW maxS))
       \<and> linked (placements (orchestrate ws seed sz minW maxS))"
  using orchestrate_is_trial[of ws seed sz minW maxS] generate_inv[OF assms] by auto

text \<open>
  The application calls the retry loop on the selected words and the 13 by 13 grid. The
  selected words always fit, so the invariant holds for every bank and every seed.
\<close>

lemma pickDailyWords_fits: "fits 13 (pickDailyWords bank t)"
proof -
  have "pickDailyWords bank t
      = first_by_answer (filter len_ok (fst (shuffleInPlace (sort_key length_key bank) t)))"
    by (simp add: pickDailyWords_def Let_def split_beta pick_loop_eq length_key_def[abs_def])
  then have "set (pickDailyWords bank t)
      \<subseteq> set (filter len_ok (fst (shuffleInPlace (sort_key length_key bank) t)))"
    by (simp only: first_by_answer_subset)
  then show ?thesis by (auto simp: fits_def len_ok_def)
qed

lemma app_puzzle_inv:
  "trial_inv 13 (grid (app_puzzle bank seed)) (placements (app_puzzle bank seed))
   \<and> linked (placements (app_puzzle bank seed))"
  unfolding app_puzzle_def by (rule orchestrate_inv[OF pickDailyWords_fits])

text \<open>
  Claim C2. In the puzzle that the retry loop returns for words that fit the grid, every
  placement's \<open>i\<close>-th covered cell holds the \<open>i\<close>-th letter of its answer, and every
  cell of the grid that holds a letter is covered by a placement.
\<close>

theorem puzzle_grid_is_union_of_placements:
  assumes "fits sz ws"
  shows "(\<forall>p\<in>set (placements (orchestrate ws seed sz minW maxS)). \<forall>i<length (answer p).
            look (grid (orchestrate ws seed sz minW maxS))
                 (cover_r (dir p) (row p) i) (cover_c (dir p) (col p) i) = Some (answer p ! i))
       \<and> (\<forall>r c. look (grid (orchestrate ws seed sz minW maxS)) r c \<noteq> None \<longrightarrow>
            (\<exists>p\<in>set (placements (orchestrate ws seed sz minW maxS)). \<exists>i<length (answer p).
               r = cover_r (dir p) (row p) i \<and> c = cover_c (dir p) (col p) i))"
  using orchestrate_inv[OF assms, of seed minW maxS]
  by (simp add: trial_inv_def consistent_def covered_def covers_def)

theorem puzzle_grid_is_union_of_placements_witness:
  "length (placements (orchestrate
      [\<lparr>answer = ''CAT'', clue = ''feline''\<rparr>, \<lparr>answer = ''OAT'', clue = ''cereal''\<rparr>] 1 5 2 1)) = 2
   \<and> consistent
       (grid (orchestrate
          [\<lparr>answer = ''CAT'', clue = ''feline''\<rparr>, \<lparr>answer = ''OAT'', clue = ''cereal''\<rparr>] 1 5 2 1))
       (placements (orchestrate
          [\<lparr>answer = ''CAT'', clue = ''feline''\<rparr>, \<lparr>answer = ''OAT'', clue = ''cereal''\<rparr>] 1 5 2 1))
   \<and> covered
       (grid (orchestrate
          [\<lparr>answer = ''CAT'', clue = ''feline''\<rparr>, \<lparr>answer = ''OAT'', clue = ''cereal''\<rparr>] 1 5 2 1))
       (placements (orchestrate
          [\<lparr>answer = ''CAT'', clue = ''feline''\<rparr>, \<lparr>answer = ''OAT'', clue = ''cereal''\<rparr>] 1 5 2 1))"
proof -
  let ?W = "[\<lparr>answer = ''CAT'', clue = ''feline''\<rparr>, \<lparr>answer = ''OAT'', clue = ''cereal''\<rparr>]"
  have f: "fits 5 ?W" by (simp add: fits_def)
  have n: "length (placements (orchestrate ?W 1 5 2 1)) = 2" by code_simp
  have c: "consistent (grid (orchestrate ?W 1 5 2 1)) (placements (orchestrate ?W 1 5 2 1))
         \<and> covered (grid (orchestrate ?W 1 5 2 1)) (placements (orchestrate ?W 1 5 2 1))"
    unfolding consistent_def covered_def covers_def
    by (rule puzzle_grid_is_union_of_placements[OF f])
  show ?thesis by (rule conjI[OF n c])
qed

text \<open>
  Claim C1. In the puzzle that the retry loop returns for words that fit the grid, when
  there is more than one placement every placement shares a cell with another entry of the
  placement list.
\<close>

theorem puzzle_placements_interlock:
  assumes "fits sz ws"
  shows "1 < length (placements (orchestrate ws seed sz minW maxS)) \<longrightarrow>
     (\<forall>i<length (placements (orchestrate ws seed sz minW maxS)).
        \<exists>j<length (placements (orchestrate ws seed sz minW maxS)). j \<noteq> i \<and>
          (\<exists>r c. covers (placements (orchestrate ws seed sz minW maxS) ! i) r c
                \<and> covers (placements (orchestrate ws seed sz minW maxS) ! j) r c))"
  using orchestrate_inv[OF assms, of seed minW maxS]
  by (simp add: linked_def interlocked_def shares_def)

theorem puzzle_placements_interlock_witness:
  "1 < length (placements (orchestrate
      [\<lparr>answer = ''CAT'', clue = ''feline''\<rparr>, \<lparr>answer = ''OAT'', clue = ''cereal''\<rparr>] 1 5 2 1))
   \<and> interlocked (placements (orchestrate
      [\<lparr>answer = ''CAT'', clue = ''feline''\<rparr>, \<lparr>answer = ''OAT'', clue = ''cereal''\<rparr>] 1 5 2 1))"
proof -
  let ?W = "[\<lparr>answer = ''CAT'', clue = ''feline''\<rparr>, \<lparr>answer = ''OAT'', clue = ''cereal''\<rparr>]"
  have f: "fits 5 ?W" by (simp add: fits_def)
  have n: "1 < length (placements (orchestrate ?W 1 5 2 1))" by code_simp
  have "interlocked (placements (orchestrate ?W 1 5 2 1))"
    unfolding interlocked_def shares_def
    by (rule puzzle_placements_interlock[OF f, THEN mp, OF n])
  with n show ?thesis by (rule conjI)
qed

subsection \<open>Numbering\<close>

lemma isLetter_look:
  assumes "square g sz"
  shows "isLetter sz g r c \<longleftrightarrow> look g r c \<noteq> None"
proof (cases "in_grid sz r c")
  case True
  then show ?thesis using look_in[OF assms True] by (simp add: isLetter_def in_grid_def)
next
  case False
  then show ?thesis using look_out[OF assms False] by (auto simp: isLetter_def in_grid_def)
qed

lemma number_step_eq:
  assumes "square g sz"
  shows "number_step sz g (r, c) (num, nums) =
           (if is_start g r c then (num + 1, cell_set nums r c (Some num)) else (num, nums))"
  by (auto simp: number_step_def is_start_def startsAcross_def startsDown_def
      isLetter_look[OF assms])

lemma is_start_in_grid:
  assumes "square g sz" "is_start g r c"
  shows "in_grid sz r c"
proof (rule ccontr)
  assume "\<not> in_grid sz r c"
  then have "look g r c = None" by (rule look_out[OF assms(1)])
  with assms(2) show False by (simp add: is_start_def)
qed

lemma number_fold:
  assumes "square g sz" "square nums sz"
  shows "fst (fold (number_step sz g) cs (n, nums)) = n + length (filter (start_cell g) cs)
       \<and> square (snd (fold (number_step sz g) cs (n, nums))) sz
       \<and> (\<forall>r c. (r, c) \<notin> set cs \<or> \<not> is_start g r c \<longrightarrow>
            look (snd (fold (number_step sz g) cs (n, nums))) r c = look nums r c)"
  using assms(2)
proof (induction cs arbitrary: n nums)
  case Nil
  then show ?case by simp
next
  case (Cons x cs)
  obtain r c where x: "x = (r, c)" by (cases x)
  show ?case
  proof (cases "is_start g r c")
    case False
    then have st: "number_step sz g (r, c) (n, nums) = (n, nums)"
      by (simp add: number_step_eq[OF assms(1)])
    from Cons.IH[OF Cons.prems, of n] False show ?thesis
      by (auto simp: st x start_cell_def)
  next
    case True
    let ?nums' = "cell_set nums r c (Some n)"
    have st: "number_step sz g (r, c) (n, nums) = (n + 1, ?nums')"
      using True by (simp add: number_step_eq[OF assms(1)])
    have sq': "square ?nums' sz" by (rule square_cell_set[OF Cons.prems])
    have ing: "in_grid sz r c" by (rule is_start_in_grid[OF assms(1) True])
    have other: "\<And>r' c'. \<not> (r' = r \<and> c' = c) \<Longrightarrow> look ?nums' r' c' = look nums r' c'"
      by (auto simp: look_cell_set[OF Cons.prems ing])
    let ?res = "fold (number_step sz g) cs (n + 1, ?nums')"
    have fo: "fold (number_step sz g) (x # cs) (n, nums) = ?res"
      by (simp add: x st)
    from Cons.IH[OF sq', of "n + 1"]
    have ih1: "fst ?res = n + 1 + length (filter (start_cell g) cs)"
      and ih2: "square (snd ?res) sz"
      and ih3: "\<And>r' c'. (r', c') \<notin> set cs \<or> \<not> is_start g r' c' \<Longrightarrow>
                  look (snd ?res) r' c' = look ?nums' r' c'"
      by auto
    show ?thesis
      unfolding fo
    proof (intro conjI allI impI)
      show "fst ?res = n + length (filter (start_cell g) (x # cs))"
        using ih1 True by (simp add: x start_cell_def)
      show "square (snd ?res) sz" by (rule ih2)
      fix r' c' assume h: "(r', c') \<notin> set (x # cs) \<or> \<not> is_start g r' c'"
      then have ne: "\<not> (r' = r \<and> c' = c)" using True by (auto simp: x)
      from h have "(r', c') \<notin> set cs \<or> \<not> is_start g r' c'" by auto
      then have "look (snd ?res) r' c' = look ?nums' r' c'" by (rule ih3)
      also have "\<dots> = look nums r' c'" by (rule other[OF ne])
      finally show "look (snd ?res) r' c' = look nums r' c'" .
    qed
  qed
qed

lemma number_fold_seq:
  assumes "square g sz" "square nums sz" "distinct cs"
  shows "map (\<lambda>(r, c). look (snd (fold (number_step sz g) cs (n, nums))) r c)
             (filter (start_cell g) cs)
         = map Some [n..<n + length (filter (start_cell g) cs)]"
  using assms(2,3)
proof (induction cs arbitrary: n nums)
  case Nil
  then show ?case by simp
next
  case (Cons x cs)
  obtain r c where x: "x = (r, c)" by (cases x)
  show ?case
  proof (cases "is_start g r c")
    case False
    then have st: "number_step sz g (r, c) (n, nums) = (n, nums)"
      by (simp add: number_step_eq[OF assms(1)])
    from Cons.IH[OF Cons.prems(1), of n] Cons.prems(2) False show ?thesis
      by (simp add: st x start_cell_def)
  next
    case True
    let ?nums' = "cell_set nums r c (Some n)"
    have st: "number_step sz g (r, c) (n, nums) = (n + 1, ?nums')"
      using True by (simp add: number_step_eq[OF assms(1)])
    have sq': "square ?nums' sz" by (rule square_cell_set[OF Cons.prems(1)])
    have ing: "in_grid sz r c" by (rule is_start_in_grid[OF assms(1) True])
    have notin: "(r, c) \<notin> set cs" using Cons.prems(2) by (simp add: x)
    have "look (snd (fold (number_step sz g) cs (n + 1, ?nums'))) r c = look ?nums' r c"
      using number_fold[OF assms(1) sq', of cs "n + 1"] notin by blast
    then have hd: "look (snd (fold (number_step sz g) cs (n + 1, ?nums'))) r c = Some n"
      by (simp add: look_cell_set[OF Cons.prems(1) ing])
    have tl: "map (\<lambda>(r, c). look (snd (fold (number_step sz g) cs (n + 1, ?nums'))) r c)
             (filter (start_cell g) cs)
         = map Some [n + 1..<n + 1 + length (filter (start_cell g) cs)]"
      by (rule Cons.IH[OF sq']) (use Cons.prems(2) in simp)
    have "[n..<n + Suc (length (filter (start_cell g) cs))]
        = n # [Suc n..<n + Suc (length (filter (start_cell g) cs))]"
      by (rule upt_conv_Cons) simp
    then have up: "[n..<n + Suc (length (filter (start_cell g) cs))]
        = n # [n + 1..<n + 1 + length (filter (start_cell g) cs)]"
      by simp
    have "map (\<lambda>(r, c). look (snd (fold (number_step sz g) (x # cs) (n, nums))) r c)
             (filter (start_cell g) (x # cs))
        = Some n # map Some [n + 1..<n + 1 + length (filter (start_cell g) cs)]"
      using hd tl True by (simp add: st x start_cell_def)
    also have "\<dots> = map Some [n..<n + length (filter (start_cell g) (x # cs))]"
      using True up by (simp add: x start_cell_def del: upt_Suc)
    finally show ?thesis .
  qed
qed

lemma scan_set: "set (scan sz) = {(r, c). in_grid sz r c}"
proof -
  have "\<And>r c. in_grid sz r c \<Longrightarrow> (r, c) \<in> set (scan sz)"
  proof -
    fix r c assume "in_grid sz r c"
    then have "nat r < sz" "nat c < sz" "r = int (nat r)" "c = int (nat c)"
      by (auto simp: in_grid_def)
    then show "(r, c) \<in> set (scan sz)"
      unfolding scan_def by (metis (mono_tags, lifting) atLeast0LessThan imageI lessThan_iff
          set_concat set_map set_upt UN_I)
  qed
  moreover have "\<And>r c. (r, c) \<in> set (scan sz) \<Longrightarrow> in_grid sz r c"
    by (auto simp: scan_def in_grid_def)
  ultimately show ?thesis by auto
qed

lemma scan_distinct: "distinct (scan sz)"
  unfolding scan_def
  by (rule distinct_concat) (auto simp: distinct_map inj_on_def)

lemma look_replicate_None: "look (replicate sz (replicate sz None)) r c = None"
  by (auto simp: look_def cell_at_def)

lemma compute_numbers_spec:
  assumes "square g sz"
  shows "square (compute_numbers sz g) sz"
    and "look (compute_numbers sz g) r c \<noteq> None \<longleftrightarrow> is_start g r c"
    and "map (\<lambda>(r, c). look (compute_numbers sz g) r c) (filter (start_cell g) (scan sz))
         = map Some [1..<Suc (length (filter (start_cell g) (scan sz)))]"
proof -
  let ?n0 = "replicate sz (replicate sz (None :: nat option))"
  have sq0: "square ?n0 sz" by (simp add: square_def)
  note nf = number_fold[OF assms sq0, of "scan sz" 1]
  show "square (compute_numbers sz g) sz" using nf by (simp add: compute_numbers_def)
  have seq: "map (\<lambda>(r, c). look (compute_numbers sz g) r c) (filter (start_cell g) (scan sz))
         = map Some [1..<1 + length (filter (start_cell g) (scan sz))]"
    unfolding compute_numbers_def by (rule number_fold_seq[OF assms sq0 scan_distinct])
  then show "map (\<lambda>(r, c). look (compute_numbers sz g) r c) (filter (start_cell g) (scan sz))
         = map Some [1..<Suc (length (filter (start_cell g) (scan sz)))]" by simp
  show "look (compute_numbers sz g) r c \<noteq> None \<longleftrightarrow> is_start g r c"
  proof (cases "is_start g r c")
    case False
    then have "look (compute_numbers sz g) r c = look ?n0 r c"
      using nf by (simp add: compute_numbers_def)
    with False show ?thesis by (simp add: look_replicate_None)
  next
    case True
    then have "(r, c) \<in> set (filter (start_cell g) (scan sz))"
      using is_start_in_grid[OF assms True] by (simp add: scan_set start_cell_def)
    then have "look (compute_numbers sz g) r c
        \<in> set (map (\<lambda>(r, c). look (compute_numbers sz g) r c) (filter (start_cell g) (scan sz)))"
      by (force simp del: set_filter)
    then have "look (compute_numbers sz g) r c
        \<in> set (map Some [1..<1 + length (filter (start_cell g) (scan sz))])"
      by (simp only: seq)
    with True show ?thesis by auto
  qed
qed

lemma generate_numbering:
  assumes "fits sz ws" "ws \<noteq> []"
  shows "square (grid (generateCrosswordFromWords ws seed sz)) sz
     \<and> square (numbers (generateCrosswordFromWords ws seed sz)) sz
     \<and> (\<forall>r c. look (numbers (generateCrosswordFromWords ws seed sz)) r c \<noteq> None
               \<longleftrightarrow> is_start (grid (generateCrosswordFromWords ws seed sz)) r c)
     \<and> map (\<lambda>(r, c). look (numbers (generateCrosswordFromWords ws seed sz)) r c)
           (filter (start_cell (grid (generateCrosswordFromWords ws seed sz))) (scan sz))
         = map Some [1..<Suc (length
             (filter (start_cell (grid (generateCrosswordFromWords ws seed sz))) (scan sz)))]
     \<and> (\<forall>p\<in>set (placements (generateCrosswordFromWords ws seed sz)).
           in_grid sz (row p) (col p)
         \<and> number p = look (numbers (generateCrosswordFromWords ws seed sz)) (row p) (col p))"
proof -
  from generate_result[OF assms, of seed] obtain g ps where
    i: "trial_inv sz g ps" and st: "\<forall>p\<in>set ps. in_grid sz (row p) (col p)"
    and g: "grid (generateCrosswordFromWords ws seed sz) = g"
    and n: "numbers (generateCrosswordFromWords ws seed sz) = compute_numbers sz g"
    and p: "placements (generateCrosswordFromWords ws seed sz)
               = map (\<lambda>p. p\<lparr>number := cell_at (compute_numbers sz g) (row p) (col p)\<rparr>) ps"
    by blast
  have sq: "square g sz" using i by (simp add: trial_inv_def)
  note cn = compute_numbers_spec[OF sq]
  have "\<forall>q\<in>set ps. look (compute_numbers sz g) (row q) (col q)
           = cell_at (compute_numbers sz g) (row q) (col q)"
    using st look_in[OF cn(1)] by blast
  then have "\<forall>p\<in>set (map (\<lambda>p. p\<lparr>number := cell_at (compute_numbers sz g) (row p) (col p)\<rparr>) ps).
           in_grid sz (row p) (col p) \<and> number p = look (compute_numbers sz g) (row p) (col p)"
    using st by simp
  then show ?thesis
    unfolding g n p using sq cn by blast
qed

text \<open>
  Claim C8, for a candidate list of at least one word. The numbering has the dimensions
  of the grid. A cell holds a number exactly when it starts an across or a down run of
  two or more letters. Read in row-major order over the whole grid, the numbers of the
  start cells are \<open>1, 2, 3, \<dots>\<close>, one per start cell. Every placement's number is the
  entry of the numbering at its start cell, which lies on the grid. For the empty
  candidate list the early return of the source gives a numbering with no rows.
\<close>

theorem puzzle_numbering:
  assumes "fits sz ws"
  shows "(ws \<noteq> [] \<longrightarrow>
       square (grid (orchestrate ws seed sz minW maxS)) sz
     \<and> square (numbers (orchestrate ws seed sz minW maxS)) sz
     \<and> (\<forall>r c. look (numbers (orchestrate ws seed sz minW maxS)) r c \<noteq> None
               \<longleftrightarrow> is_start (grid (orchestrate ws seed sz minW maxS)) r c)
     \<and> map (\<lambda>(r, c). look (numbers (orchestrate ws seed sz minW maxS)) r c)
           (filter (start_cell (grid (orchestrate ws seed sz minW maxS))) (scan sz))
         = map Some [1..<Suc (length
             (filter (start_cell (grid (orchestrate ws seed sz minW maxS))) (scan sz)))]
     \<and> (\<forall>p\<in>set (placements (orchestrate ws seed sz minW maxS)).
           in_grid sz (row p) (col p)
         \<and> number p = look (numbers (orchestrate ws seed sz minW maxS)) (row p) (col p)))
   \<and> (ws = [] \<longrightarrow>
         numbers (orchestrate ws seed sz minW maxS) = []
       \<and> grid (orchestrate ws seed sz minW maxS) = makeEmptyGrid sz
       \<and> placements (orchestrate ws seed sz minW maxS) = [])"
proof -
  obtain s where s: "orchestrate ws seed sz minW maxS
      = generateCrosswordFromWords ws (seed + int s) sz"
    using orchestrate_is_trial by blast
  show ?thesis
    unfolding s using generate_numbering[OF assms, of "seed + int s"]
    by (auto simp: generate_empty)
qed

theorem puzzle_numbering_witness:
  "length (placements (orchestrate
      [\<lparr>answer = ''CAT'', clue = ''feline''\<rparr>, \<lparr>answer = ''OAT'', clue = ''cereal''\<rparr>] 1 5 2 1)) = 2
   \<and> square (grid (orchestrate
      [\<lparr>answer = ''CAT'', clue = ''feline''\<rparr>, \<lparr>answer = ''OAT'', clue = ''cereal''\<rparr>] 1 5 2 1)) 5
   \<and> square (numbers (orchestrate
      [\<lparr>answer = ''CAT'', clue = ''feline''\<rparr>, \<lparr>answer = ''OAT'', clue = ''cereal''\<rparr>] 1 5 2 1)) 5"
proof -
  let ?W = "[\<lparr>answer = ''CAT'', clue = ''feline''\<rparr>, \<lparr>answer = ''OAT'', clue = ''cereal''\<rparr>]"
  have f: "fits 5 ?W" by (simp add: fits_def)
  have ne: "?W \<noteq> []" by simp
  have n: "length (placements (orchestrate ?W 1 5 2 1)) = 2" by code_simp
  note th = puzzle_numbering[OF f, where seed = 1 and minW = 2 and maxS = 1,
      THEN conjunct1, THEN mp, OF ne]
  have a: "square (grid (orchestrate ?W 1 5 2 1)) 5" by (rule th[THEN conjunct1])
  have b: "square (numbers (orchestrate ?W 1 5 2 1)) 5"
    by (rule th[THEN conjunct2, THEN conjunct1])
  show ?thesis by (intro conjI n a b)
qed

text \<open>
  Claim C8 as stated fails for the empty candidate list: the application then returns a
  13 by 13 grid with a numbering that has no rows.
\<close>

theorem numbering_counterexample:
  "numbers (app_puzzle [] 0) = [] \<and> length (grid (app_puzzle [] 0)) = 13"
proof -
  have w: "pickDailyWords [] (mulberry32 0) = []"
    by (simp add: pickDailyWords_def shuffleInPlace_def)
  obtain s where "orchestrate [] 0 13 MIN_WORDS MAX_SALTS
      = generateCrosswordFromWords [] (0 + int s) 13"
    using orchestrate_is_trial by blast
  then have "app_puzzle [] 0 = generateCrosswordFromWords [] (0 + int s) 13"
    by (simp only: app_puzzle_def w)
  then show ?thesis by (simp add: generate_empty makeEmptyGrid_def)
qed

subsection \<open>The score counts the crossings\<close>

lemma count_scan:
  "length (concat (map (\<lambda>r. filter (\<lambda>c. P r c) [0..<W]) [0..<H]))
     = length (filter (\<lambda>(r, c). P (nat r) (nat c))
         (concat (map (\<lambda>r. map (\<lambda>c. (int r, int c)) [0..<W]) [0..<H])))"
  by (simp add: filter_concat filter_map length_concat comp_def)

lemma scorePlacements_intersections:
  assumes "square g S" "0 < S" "inb S ps"
  shows "scorePlacements g ps = intersectionCount S ps"
proof -
  have H: "length g = S" using assms(1) by (simp add: square_def)
  have W: "length (g ! 0) = S" using assms(1,2) nth_mem by (auto simp: square_def)
  let ?cnt = "count_cells S S ps"
  let ?Q = "\<lambda>(r, c). 1 < ?cnt ! nat r ! nat c"
  have "scorePlacements g ps = length (filter ?Q (scan S))"
    unfolding scorePlacements_def Let_def H W scan_def
    using count_scan[of "\<lambda>r c. 1 < ?cnt ! r ! c" S S] by simp
  also have "\<dots> = card (set (filter ?Q (scan S)))"
    by (rule distinct_card[symmetric]) (rule distinct_filter[OF scan_distinct])
  also have "set (filter ?Q (scan S))
      = {(r, c). in_grid S r c \<and> 1 < length (filter (\<lambda>p. covers p r c) ps)}"
    using count_cells_eq[OF assms(3)]
    by (auto simp: scan_set cell_at_def)
  finally show ?thesis by (simp add: intersectionCount_def)
qed

lemma quality_intersections:
  assumes "fits sz ws"
  shows "quality ws seed sz s
     = length (placements (trial ws seed sz s)) * 10
       + intersectionCount sz (placements (trial ws seed sz s))"
proof -
  have "trial_inv sz (grid (trial ws seed sz s)) (placements (trial ws seed sz s))"
    unfolding trial_def using generate_inv[OF assms] by blast
  then have "square (grid (trial ws seed sz s)) sz" "inb sz (placements (trial ws seed sz s))"
    by (simp_all add: trial_inv_def)
  moreover have "0 < sz" using assms by (simp add: fits_def)
  ultimately have "scorePlacements (grid (trial ws seed sz s)) (placements (trial ws seed sz s))
      = intersectionCount sz (placements (trial ws seed sz s))"
    by (intro scorePlacements_intersections)
  then show ?thesis by (simp add: quality_def placedCount_def)
qed

text \<open>
  Claim C4. The retry loop runs the trials of the salts \<open>0, 1, ..\<close> with the seed
  \<open>seed + salt\<close>. The first salt whose trial places at least \<open>minW\<close> words is returned
  at once: the result is that trial whatever the number of salts allowed after it. When
  no salt below \<open>maxS\<close> reaches the threshold and at least one trial ran, the result is
  the trial of highest quality, the earliest one among equals. Only when no trial ran
  (\<open>maxS = 0\<close>) is the result one more trial, at the base seed. The quality of a trial
  is ten times the number of its placements plus the number of grid cells covered by
  more than one of them (for words that fit the grid).
\<close>

theorem orchestrate_spec:
  "(\<forall>s<maxS. placedCount ws seed sz s \<ge> minW \<and> (\<forall>s' < s. placedCount ws seed sz s' < minW)
       \<longrightarrow> orchestrate ws seed sz minW maxS = trial ws seed sz s
         \<and> (\<forall>m > s. orchestrate ws seed sz minW m = trial ws seed sz s))
   \<and> (0 < maxS \<and> (\<forall>s<maxS. placedCount ws seed sz s < minW)
       \<longrightarrow> (\<exists>b<maxS. orchestrate ws seed sz minW maxS = trial ws seed sz b
              \<and> (\<forall>s<maxS. quality ws seed sz s \<le> quality ws seed sz b)
              \<and> (\<forall>s<b. quality ws seed sz s < quality ws seed sz b)))
   \<and> (maxS = 0 \<longrightarrow> orchestrate ws seed sz minW maxS = generateCrosswordFromWords ws seed sz)
   \<and> (fits sz ws \<longrightarrow> (\<forall>s. quality ws seed sz s
          = length (placements (trial ws seed sz s)) * 10
            + intersectionCount sz (placements (trial ws seed sz s))))"
proof (intro conjI allI impI)
  fix s assume s: "s < maxS"
    and h: "placedCount ws seed sz s \<ge> minW \<and> (\<forall>s' < s. placedCount ws seed sz s' < minW)"
  have th: "orchestrate ws seed sz minW m = trial ws seed sz s" if "s < m" for m
    unfolding orchestrate_def by (rule orch_loop_threshold) (use that h in auto)
  from th[OF s] show "orchestrate ws seed sz minW maxS = trial ws seed sz s" .
  fix m assume "s < m"
  then show "orchestrate ws seed sz minW m = trial ws seed sz s" by (rule th)
next
  assume "0 < maxS \<and> (\<forall>s<maxS. placedCount ws seed sz s < minW)"
  then obtain b where "best_upto ws seed sz maxS b"
      "orchestrate ws seed sz minW maxS = trial ws seed sz b"
    using orchestrate_best by blast
  then show "\<exists>b<maxS. orchestrate ws seed sz minW maxS = trial ws seed sz b
              \<and> (\<forall>s<maxS. quality ws seed sz s \<le> quality ws seed sz b)
              \<and> (\<forall>s<b. quality ws seed sz s < quality ws seed sz b)"
    unfolding best_upto_def by blast
next
  assume "maxS = 0"
  then show "orchestrate ws seed sz minW maxS = generateCrosswordFromWords ws seed sz"
    by (simp add: orchestrate_def orch_loop_done)
next
  fix s assume "fits sz ws"
  then show "quality ws seed sz s
          = length (placements (trial ws seed sz s)) * 10
            + intersectionCount sz (placements (trial ws seed sz s))"
    by (rule quality_intersections)
qed


theorem orchestrate_spec_witness:
  "orchestrate [\<lparr>answer = ''CAT'', clue = ''feline''\<rparr>, \<lparr>answer = ''OAT'', clue = ''cereal''\<rparr>] 1 5 2 3
     = trial [\<lparr>answer = ''CAT'', clue = ''feline''\<rparr>, \<lparr>answer = ''OAT'', clue = ''cereal''\<rparr>] 1 5 0
   \<and> (\<exists>b<2. orchestrate [\<lparr>answer = ''CAT'', clue = ''feline''\<rparr>, \<lparr>answer = ''OAT'', clue = ''cereal''\<rparr>] 1 5 8 2
     = trial [\<lparr>answer = ''CAT'', clue = ''feline''\<rparr>, \<lparr>answer = ''OAT'', clue = ''cereal''\<rparr>] 1 5 b)
   \<and> orchestrate [\<lparr>answer = ''CAT'', clue = ''feline''\<rparr>, \<lparr>answer = ''OAT'', clue = ''cereal''\<rparr>] 1 5 8 0
     = generateCrosswordFromWords
         [\<lparr>answer = ''CAT'', clue = ''feline''\<rparr>, \<lparr>answer = ''OAT'', clue = ''cereal''\<rparr>] 1 5
   \<and> intersectionCount 5 (placements
         (trial [\<lparr>answer = ''CAT'', clue = ''feline''\<rparr>, \<lparr>answer = ''OAT'', clue = ''cereal''\<rparr>] 1 5 0))
     = 1"
proof -
  let ?W = "[\<lparr>answer = ''CAT'', clue = ''feline''\<rparr>, \<lparr>answer = ''OAT'', clue = ''cereal''\<rparr>]"
  have p0: "placedCount ?W 1 5 0 = 2" by code_simp
  have p1: "placedCount ?W 1 5 1 = 2" by code_simp
  have a: "(0::nat) < 3" "placedCount ?W 1 5 0 \<ge> 2 \<and> (\<forall>s'<0. placedCount ?W 1 5 s' < 2)"
    using p0 by simp_all
  have "\<forall>s<2. placedCount ?W 1 5 s < 8"
    using p0 p1 by (auto simp: less_Suc_eq numeral_2_eq_2)
  then have b: "(0::nat) < 2 \<and> (\<forall>s<2. placedCount ?W 1 5 s < 8)" by simp
  from orchestrate_spec[where maxS = 3 and ws = ?W and seed = 1 and sz = 5 and minW = 2] a
  have 1: "orchestrate ?W 1 5 2 3 = trial ?W 1 5 0" by blast
  from orchestrate_spec[where maxS = 2 and ws = ?W and seed = 1 and sz = 5 and minW = 8] b
  have 2: "\<exists>b<2. orchestrate ?W 1 5 8 2 = trial ?W 1 5 b" by blast
  from orchestrate_spec[where maxS = 0 and ws = ?W and seed = 1 and sz = 5 and minW = 8]
  have 3: "orchestrate ?W 1 5 8 0 = generateCrosswordFromWords ?W 1 5" by blast
  have f: "fits 5 ?W" by (simp add: fits_def)
  have q: "quality ?W 1 5 0 = 21" by code_simp
  have l: "length (placements (trial ?W 1 5 0)) = 2" using p0 by (simp only: placedCount_def)
  from orchestrate_spec[where maxS = 0 and ws = ?W and seed = 1 and sz = 5 and minW = 8] f
  have "quality ?W 1 5 0 = length (placements (trial ?W 1 5 0)) * 10
            + intersectionCount 5 (placements (trial ?W 1 5 0))" by blast
  then have 4: "intersectionCount 5 (placements (trial ?W 1 5 0)) = 1"
    unfolding q l by simp
  from 1 2 3 4 show ?thesis by blast
qed

subsection \<open>Runs of letters are placements\<close>

text \<open>A word written along a line whose end caps are empty: a run of the new line is the
  word's span or was a run before.\<close>

lemma seg_run_along:
  assumes new: "\<And>k. F' k = (if k0 \<le> k \<and> k < k0 + n then Some (v k) else F k)"
    and caps: "F (k0 - 1) = None" "F (k0 + n) = None"
    and run: "seg_run F' a b"
  shows "(a = k0 \<and> b = k0 + n - 1) \<or> seg_run F a b"
proof (cases "\<exists>k. a \<le> k \<and> k \<le> b \<and> k0 \<le> k \<and> k < k0 + n")
  case True
  then obtain k where k: "a \<le> k" "k \<le> b" "k0 \<le> k" "k < k0 + n" by blast
  have ab: "a < b" and letters: "\<And>j. a \<le> j \<Longrightarrow> j \<le> b \<Longrightarrow> F' j \<noteq> None"
    and ca: "F' (a - 1) = None" and cb: "F' (b + 1) = None"
    using run by (auto simp: seg_run_def)
  have c1: "F' (k0 - 1) = None" using caps(1) by (simp add: new)
  have c2: "F' (k0 + n) = None" using caps(2) by (simp add: new)
  have "a = k0"
  proof (rule ccontr)
    assume ne: "a \<noteq> k0"
    show False
    proof (cases "a < k0")
      case True
      then have "a \<le> k0 - 1" "k0 - 1 \<le> b" using k by auto
      from letters[OF this] c1 show False by simp
    next
      case False
      with ne have "k0 \<le> a - 1" "a - 1 < k0 + n" using k by auto
      then have "F' (a - 1) \<noteq> None" by (simp add: new)
      with ca show False by simp
    qed
  qed
  moreover have "b = k0 + n - 1"
  proof (rule ccontr)
    assume ne: "b \<noteq> k0 + n - 1"
    show False
    proof (cases "b < k0 + n - 1")
      case True
      then have "k0 \<le> b + 1" "b + 1 < k0 + n" using k by auto
      then have "F' (b + 1) \<noteq> None" by (simp add: new)
      with cb show False by simp
    next
      case False
      with ne have "a \<le> k0 + n" "k0 + n \<le> b" using k by auto
      from letters[OF this] c2 show False by simp
    qed
  qed
  ultimately show ?thesis by simp
next
  case False
  have same: "\<And>j. a \<le> j \<Longrightarrow> j \<le> b \<Longrightarrow> F j = F' j"
    using False by (auto simp: new)
  have mono: "\<And>j. F' j = None \<Longrightarrow> F j = None"
    by (simp add: new split: if_splits)
  have "seg_run F a b"
    using run same mono unfolding seg_run_def by metis
  then show ?thesis by simp
qed

text \<open>A line that the new word crosses in one cell: where that cell is new, its two
  neighbours on the line are empty, so the runs of the line are the old ones.\<close>

lemma seg_run_across:
  assumes new: "\<And>l. l \<noteq> l0 \<Longrightarrow> F' l = F l"
    and cell: "F' l0 = F l0 \<or> (F l0 = None \<and> F (l0 - 1) = None \<and> F (l0 + 1) = None \<and> F' l0 \<noteq> None)"
    and run: "seg_run F' a b"
  shows "seg_run F a b"
proof (cases "F' l0 = F l0")
  case True
  then have "\<And>l. F' l = F l" using new by (case_tac "l = l0") auto
  then have "F' = F" by auto
  with run show ?thesis by simp
next
  case False
  with cell have e: "F l0 = None" "F (l0 - 1) = None" "F (l0 + 1) = None" "F' l0 \<noteq> None"
    by auto
  have ab: "a < b" and letters: "\<And>j. a \<le> j \<Longrightarrow> j \<le> b \<Longrightarrow> F' j \<noteq> None"
    and ca: "F' (a - 1) = None" and cb: "F' (b + 1) = None"
    using run by (auto simp: seg_run_def)
  have n1: "F' (l0 - 1) = None" using new[of "l0 - 1"] e by simp
  have n2: "F' (l0 + 1) = None" using new[of "l0 + 1"] e by simp
  have out: "\<not> (a \<le> l0 \<and> l0 \<le> b)"
  proof
    assume h: "a \<le> l0 \<and> l0 \<le> b"
    show False
    proof (cases "l0 < b")
      case True
      with h have "a \<le> l0 + 1" "l0 + 1 \<le> b" by auto
      from letters[OF this] n2 show False by simp
    next
      case False
      with h ab have "a \<le> l0 - 1" "l0 - 1 \<le> b" by auto
      from letters[OF this] n1 show False by simp
    qed
  qed
  have "a - 1 \<noteq> l0" using ca e(4) by auto
  moreover have "b + 1 \<noteq> l0" using cb e(4) by auto
  ultimately have "F (a - 1) = None" "F (b + 1) = None"
    using ca cb new by auto
  moreover have "\<And>j. a \<le> j \<Longrightarrow> j \<le> b \<Longrightarrow> F j \<noteq> None"
  proof -
    fix j assume j: "a \<le> j" "j \<le> b"
    with out have "j \<noteq> l0" by auto
    with letters[OF j] new show "F j \<noteq> None" by simp
  qed
  ultimately show ?thesis using ab by (simp add: seg_run_def)
qed

lemma placeWord_look_across:
  assumes "square g S" "\<forall>i<length w. in_grid S r0 (c0 + int i)"
  shows "look (placeWord w r0 c0 ACROSS g) r c =
           (if r = r0 \<and> c0 \<le> c \<and> c < c0 + int (length w)
            then Some (w ! nat (c - c0)) else look g r c)"
proof -
  have ing: "\<forall>i<length w. in_grid S (cover_r ACROSS r0 i) (cover_c ACROSS c0 i)"
    using assms(2) by (simp add: cover_r_def cover_c_def)
  show ?thesis
  proof (cases "r = r0 \<and> c0 \<le> c \<and> c < c0 + int (length w)")
    case True
    define i where "i = nat (c - c0)"
    have il: "i < length w" and ci: "c0 + int i = c" using True by (auto simp: i_def)
    have "look (placeWord w r0 c0 ACROSS g) r0 (c0 + int i) = Some (w ! i)"
      using placeWord_look_covered[OF assms(1) ing il] by (simp add: cover_r_def cover_c_def)
    then have "look (placeWord w r0 c0 ACROSS g) r c = Some (w ! i)"
      using True by (simp only: ci)
    then show ?thesis using True by (simp add: i_def)
  next
    case False
    then have "\<forall>i<length w. \<not> (r = cover_r ACROSS r0 i \<and> c = cover_c ACROSS c0 i)"
      by (auto simp: cover_r_def cover_c_def)
    from placeWord_look_other[OF assms(1) ing this] False show ?thesis by auto
  qed
qed

lemma placeWord_look_down:
  assumes "square g S" "\<forall>i<length w. in_grid S (r0 + int i) c0"
  shows "look (placeWord w r0 c0 DOWN g) r c =
           (if c = c0 \<and> r0 \<le> r \<and> r < r0 + int (length w)
            then Some (w ! nat (r - r0)) else look g r c)"
proof -
  have ing: "\<forall>i<length w. in_grid S (cover_r DOWN r0 i) (cover_c DOWN c0 i)"
    using assms(2) by (simp add: cover_r_def cover_c_def)
  show ?thesis
  proof (cases "c = c0 \<and> r0 \<le> r \<and> r < r0 + int (length w)")
    case True
    define i where "i = nat (r - r0)"
    have il: "i < length w" and ri: "r0 + int i = r" using True by (auto simp: i_def)
    have "look (placeWord w r0 c0 DOWN g) (r0 + int i) c0 = Some (w ! i)"
      using placeWord_look_covered[OF assms(1) ing il] by (simp add: cover_r_def cover_c_def)
    then have "look (placeWord w r0 c0 DOWN g) r c = Some (w ! i)"
      using True by (simp only: ri)
    then show ?thesis using True by (simp add: i_def)
  next
    case False
    then have "\<forall>i<length w. \<not> (r = cover_r DOWN r0 i \<and> c = cover_c DOWN c0 i)"
      by (auto simp: cover_r_def cover_c_def)
    from placeWord_look_other[OF assms(1) ing this] False show ?thesis by auto
  qed
qed

lemma runs_place_across:
  assumes sq: "square g S"
    and ing: "\<forall>i<length (answer e). in_grid S r0 (c0 + int i)"
    and cap1: "look g r0 (c0 - 1) = None"
    and cap2: "look g r0 (c0 + int (length (answer e))) = None"
    and cells: "\<forall>i<length (answer e).
         look g r0 (c0 + int i) = Some (answer e ! i)
       \<or> (look g r0 (c0 + int i) = None
          \<and> look g (r0 - 1) (c0 + int i) = None \<and> look g (r0 + 1) (c0 + int i) = None)"
    and old: "runs_placed g ps"
  shows "runs_placed (placeWord (answer e) r0 c0 ACROSS g) (ps @ [mk_placement e r0 c0 ACROSS])"
proof -
  let ?w = "answer e"
  let ?n = "int (length ?w)"
  let ?g' = "placeWord ?w r0 c0 ACROSS g"
  note lk = placeWord_look_across[OF sq ing]
  have H: "\<exists>p\<in>set (ps @ [mk_placement e r0 c0 ACROSS]).
             dir p = ACROSS \<and> row p = r \<and> col p = c1 \<and> int (length (answer p)) = c2 - c1 + 1"
    if run: "hrun ?g' r c1 c2" for r c1 c2
  proof (cases "r = r0")
    case False
    then have "(\<lambda>c. look ?g' r c) = (\<lambda>c. look g r c)" by (simp add: lk)
    with run have "hrun g r c1 c2" by (simp add: hrun_def)
    with old show ?thesis by (auto simp: runs_placed_def)
  next
    case True
    have "(c1 = c0 \<and> c2 = c0 + ?n - 1) \<or> seg_run (\<lambda>c. look g r0 c) c1 c2"
      by (rule seg_run_along[where F' = "\<lambda>c. look ?g' r0 c" and v = "\<lambda>k. ?w ! nat (k - c0)"])
         (use lk cap1 cap2 run True in \<open>auto simp: hrun_def\<close>)
    then show ?thesis
    proof
      assume "c1 = c0 \<and> c2 = c0 + ?n - 1"
      then show ?thesis using True by (auto simp: mk_placement_def)
    next
      assume "seg_run (\<lambda>c. look g r0 c) c1 c2"
      then have "hrun g r c1 c2" using True by (simp add: hrun_def)
      with old show ?thesis by (auto simp: runs_placed_def)
    qed
  qed
  have V: "\<exists>p\<in>set (ps @ [mk_placement e r0 c0 ACROSS]).
             dir p = DOWN \<and> col p = c \<and> row p = r1 \<and> int (length (answer p)) = r2 - r1 + 1"
    if run: "vrun ?g' c r1 r2" for c r1 r2
  proof -
    have "seg_run (\<lambda>r. look g r c) r1 r2"
    proof (cases "c0 \<le> c \<and> c < c0 + ?n")
      case False
      then have "(\<lambda>r. look ?g' r c) = (\<lambda>r. look g r c)" by (auto simp: lk)
      with run show ?thesis by (simp add: vrun_def)
    next
      case True
      then have i: "nat (c - c0) < length ?w" "c = c0 + int (nat (c - c0))" by auto
      show ?thesis
      proof (rule seg_run_across[where F' = "\<lambda>r. look ?g' r c" and ?l0.0 = r0])
        show "\<And>l. l \<noteq> r0 \<Longrightarrow> look ?g' l c = look g l c" by (simp add: lk)
        show "look ?g' r0 c = look g r0 c
          \<or> (look g r0 c = None \<and> look g (r0 - 1) c = None \<and> look g (r0 + 1) c = None
              \<and> look ?g' r0 c \<noteq> None)"
          using cells[rule_format, OF i(1)] i(2) True by (auto simp: lk)
        show "seg_run (\<lambda>r. look ?g' r c) r1 r2" using run by (simp add: vrun_def)
      qed
    qed
    then have "vrun g c r1 r2" by (simp add: vrun_def)
    with old show ?thesis by (auto simp: runs_placed_def)
  qed
  show ?thesis unfolding runs_placed_def using H V by blast
qed

lemma runs_place_down:
  assumes sq: "square g S"
    and ing: "\<forall>i<length (answer e). in_grid S (r0 + int i) c0"
    and cap1: "look g (r0 - 1) c0 = None"
    and cap2: "look g (r0 + int (length (answer e))) c0 = None"
    and cells: "\<forall>i<length (answer e).
         look g (r0 + int i) c0 = Some (answer e ! i)
       \<or> (look g (r0 + int i) c0 = None
          \<and> look g (r0 + int i) (c0 - 1) = None \<and> look g (r0 + int i) (c0 + 1) = None)"
    and old: "runs_placed g ps"
  shows "runs_placed (placeWord (answer e) r0 c0 DOWN g) (ps @ [mk_placement e r0 c0 DOWN])"
proof -
  let ?w = "answer e"
  let ?n = "int (length ?w)"
  let ?g' = "placeWord ?w r0 c0 DOWN g"
  note lk = placeWord_look_down[OF sq ing]
  have V: "\<exists>p\<in>set (ps @ [mk_placement e r0 c0 DOWN]).
             dir p = DOWN \<and> col p = c \<and> row p = r1 \<and> int (length (answer p)) = r2 - r1 + 1"
    if run: "vrun ?g' c r1 r2" for c r1 r2
  proof (cases "c = c0")
    case False
    then have "(\<lambda>r. look ?g' r c) = (\<lambda>r. look g r c)" by (simp add: lk)
    with run have "vrun g c r1 r2" by (simp add: vrun_def)
    with old show ?thesis by (auto simp: runs_placed_def)
  next
    case True
    have "(r1 = r0 \<and> r2 = r0 + ?n - 1) \<or> seg_run (\<lambda>r. look g r c0) r1 r2"
      by (rule seg_run_along[where F' = "\<lambda>r. look ?g' r c0" and v = "\<lambda>k. ?w ! nat (k - r0)"])
         (use lk cap1 cap2 run True in \<open>auto simp: vrun_def\<close>)
    then show ?thesis
    proof
      assume "r1 = r0 \<and> r2 = r0 + ?n - 1"
      then show ?thesis using True by (auto simp: mk_placement_def)
    next
      assume "seg_run (\<lambda>r. look g r c0) r1 r2"
      then have "vrun g c r1 r2" using True by (simp add: vrun_def)
      with old show ?thesis by (auto simp: runs_placed_def)
    qed
  qed
  have H: "\<exists>p\<in>set (ps @ [mk_placement e r0 c0 DOWN]).
             dir p = ACROSS \<and> row p = r \<and> col p = c1 \<and> int (length (answer p)) = c2 - c1 + 1"
    if run: "hrun ?g' r c1 c2" for r c1 c2
  proof -
    have "seg_run (\<lambda>c. look g r c) c1 c2"
    proof (cases "r0 \<le> r \<and> r < r0 + ?n")
      case False
      then have "(\<lambda>c. look ?g' r c) = (\<lambda>c. look g r c)" by (auto simp: lk)
      with run show ?thesis by (simp add: hrun_def)
    next
      case True
      then have i: "nat (r - r0) < length ?w" "r = r0 + int (nat (r - r0))" by auto
      show ?thesis
      proof (rule seg_run_across[where F' = "\<lambda>c. look ?g' r c" and ?l0.0 = c0])
        show "\<And>l. l \<noteq> c0 \<Longrightarrow> look ?g' r l = look g r l" by (simp add: lk)
        show "look ?g' r c0 = look g r c0
          \<or> (look g r c0 = None \<and> look g r (c0 - 1) = None \<and> look g r (c0 + 1) = None
              \<and> look ?g' r c0 \<noteq> None)"
          using cells[rule_format, OF i(1)] i(2) True by (auto simp: lk)
        show "seg_run (\<lambda>c. look ?g' r c) c1 c2" using run by (simp add: hrun_def)
      qed
    qed
    then have "hrun g r c1 c2" by (simp add: hrun_def)
    with old show ?thesis by (auto simp: runs_placed_def)
  qed
  show ?thesis unfolding runs_placed_def using H V by blast
qed

lemma seg_run_letter: "seg_run F a b \<Longrightarrow> F a \<noteq> None"
  by (simp add: seg_run_def)

lemma runs_placed_empty: "runs_placed (makeEmptyGrid sz) []"
  using seg_run_letter[of "\<lambda>c. None"]
  by (auto simp: runs_placed_def hrun_def vrun_def look_makeEmptyGrid)

lemma runs_first:
  assumes "0 < sz" "length (answer w) \<le> sz"
  shows "runs_placed (placeWord (answer w) (int (sz div 2))
                  (max 0 (min (int sz - int (length (answer w)))
                     (int (sz div 2) - int (length (answer w) div 2)))) ACROSS (makeEmptyGrid sz))
            [mk_placement w (int (sz div 2))
               (max 0 (min (int sz - int (length (answer w)))
                  (int (sz div 2) - int (length (answer w) div 2)))) ACROSS]"
  using runs_place_across[OF square_makeEmptyGrid, of w sz "int (sz div 2)"
      "max 0 (min (int sz - int (length (answer w)))
         (int (sz div 2) - int (length (answer w) div 2)))" "[]"]
    first_word_fits[OF assms] runs_placed_empty[of sz]
  by (simp add: look_makeEmptyGrid)

lemma runs_attempt_word:
  assumes "square g sz" "runs_placed g ps"
    and "attempt_word sz w (g, ps, t) = (g', ps', t')"
  shows "runs_placed g' ps'"
proof -
  from attempt_word_cases[OF assms(3)] show ?thesis
  proof
    assume "g' = g \<and> ps' = ps"
    with assms(2) show ?thesis by simp
  next
    assume "\<exists>r c d. canPlace (answer w) r c d g \<and> (r, c, d) \<in> set (word_cands sz (answer w) g t)
            \<and> g' = placeWord (answer w) r c d g \<and> ps' = ps @ [mk_placement w r c d]"
    then obtain r c d where cp: "canPlace (answer w) r c d g"
      and cand: "(r, c, d) \<in> set (word_cands sz (answer w) g t)"
      and g': "g' = placeWord (answer w) r c d g" and ps': "ps' = ps @ [mk_placement w r c d]"
      by blast
    from word_cands_crossing[OF assms(1) cand] have ne: "answer w \<noteq> []" by auto
    show ?thesis
    proof (cases d)
      case ACROSS
      from cp canPlace_across[OF assms(1) ne, of r c]
      have "(\<forall>i<length (answer w). in_grid sz r (c + int i))
          \<and> look g r (c - 1) = None \<and> look g r (c + int (length (answer w))) = None
          \<and> (\<forall>i<length (answer w).
                look g r (c + int i) = Some (answer w ! i)
              \<or> (look g r (c + int i) = None
                 \<and> look g (r - 1) (c + int i) = None \<and> look g (r + 1) (c + int i) = None))"
        by (simp add: ACROSS)
      then show ?thesis
        unfolding g' ps' ACROSS using runs_place_across[OF assms(1) _ _ _ _ assms(2)] by blast
    next
      case DOWN
      from cp canPlace_down[OF assms(1) ne, of r c]
      have "(\<forall>i<length (answer w). in_grid sz (r + int i) c)
          \<and> look g (r - 1) c = None \<and> look g (r + int (length (answer w))) c = None
          \<and> (\<forall>i<length (answer w).
                look g (r + int i) c = Some (answer w ! i)
              \<or> (look g (r + int i) c = None
                 \<and> look g (r + int i) (c - 1) = None \<and> look g (r + int i) (c + 1) = None))"
        by (simp add: DOWN)
      then show ?thesis
        unfolding g' ps' DOWN using runs_place_down[OF assms(1) _ _ _ _ assms(2)] by blast
    qed
  qed
qed

lemma runs_fold_attempt:
  assumes "trial_inv sz g ps" "runs_placed g ps"
    and "fold (attempt_word sz) ws (g, ps, t) = (g', ps', t')"
  shows "runs_placed g' ps'"
  using assms
proof (induction ws arbitrary: g ps t)
  case Nil
  then show ?case by simp
next
  case (Cons w ws)
  obtain g1 ps1 t1 where a: "attempt_word sz w (g, ps, t) = (g1, ps1, t1)"
    by (cases "attempt_word sz w (g, ps, t)")
  have i1: "trial_inv sz g1 ps1" by (rule inv_attempt_word[OF Cons.prems(1) a])
  have sq: "square g sz" using Cons.prems(1) by (simp add: trial_inv_def)
  have r1: "runs_placed g1 ps1" by (rule runs_attempt_word[OF sq Cons.prems(2) a])
  have "fold (attempt_word sz) ws (g1, ps1, t1) = (g', ps', t')"
    using Cons.prems(3) by (simp add: a)
  with i1 r1 show ?case using Cons.IH by blast
qed

lemma runs_placed_number:
  "runs_placed g (map (\<lambda>p. p\<lparr>number := f p\<rparr>) ps) = runs_placed g ps"
  by (simp add: runs_placed_def)

lemma generate_runs:
  assumes "fits sz ws"
  shows "runs_placed (grid (generateCrosswordFromWords ws seed sz))
                     (placements (generateCrosswordFromWords ws seed sz))"
proof (cases "ws = []")
  case True
  then show ?thesis by (simp add: generate_empty runs_placed_empty)
next
  case False
  obtain copy t1 where sh: "shuffleInPlace ws (mulberry32 seed) = (copy, t1)"
    by (cases "shuffleInPlace ws (mulberry32 seed)")
  have cs: "set copy = set ws" and cl: "length copy = length ws"
    using shuffleInPlace_set[of ws "mulberry32 seed"] shuffleInPlace_length[of ws "mulberry32 seed"]
    by (simp_all add: sh)
  from cl False obtain first rest where copy: "copy = first # rest" by (cases copy) auto
  have sz: "0 < sz" and fl: "length (answer first) \<le> sz"
    using assms cs by (auto simp: fits_def copy)
  define mid where "mid = int (sz div 2)"
  define startCol where "startCol = max 0 (min (int sz - int (length (answer first)))
                     (mid - int (length (answer first) div 2)))"
  define g1 where "g1 = placeWord (answer first) mid startCol ACROSS (makeEmptyGrid sz)"
  define ps1 where "ps1 = [mk_placement first mid startCol ACROSS]"
  obtain g2 ps2 t2 where fo: "fold (attempt_word sz) rest (g1, ps1, t1) = (g2, ps2, t2)"
    by (cases "fold (attempt_word sz) rest (g1, ps1, t1)") auto
  have i1: "trial_inv sz g1 ps1"
    unfolding g1_def ps1_def startCol_def mid_def by (rule inv_first[OF sz fl])
  have l1: "linked ps1" by (simp add: ps1_def linked_def)
  have r1: "runs_placed g1 ps1"
    unfolding g1_def ps1_def startCol_def mid_def by (rule runs_first[OF sz fl])
  have i2: "trial_inv sz g2 ps2" by (rule inv_fold_attempt[OF i1 fo])
  have l2: "ps2 \<noteq> [] \<and> linked ps2"
    by (rule linked_fold_attempt[OF i1 _ l1 fo]) (simp add: ps1_def)
  have r2: "runs_placed g2 ps2" by (rule runs_fold_attempt[OF i1 r1 fo])
  have pr: "pruneIsolatedWords g2 ps2 = (g2, ps2)"
    by (rule prune_noop[of g2 sz]) (use i2 l2 sz in \<open>auto simp: trial_inv_def\<close>)
  have "grid (generateCrosswordFromWords ws seed sz) = g2
      \<and> placements (generateCrosswordFromWords ws seed sz)
               = map (\<lambda>p. p\<lparr>number := cell_at (compute_numbers sz g2) (row p) (col p)\<rparr>) ps2"
    using fo pr
    by (simp add: generateCrosswordFromWords_def sh copy Let_def
        mid_def[symmetric] startCol_def[symmetric] g1_def[symmetric] ps1_def[symmetric])
  with r2 show ?thesis by (simp add: runs_placed_number)
qed

lemma seg_run_exists:
  assumes "F a \<noteq> None" "F (a + 1) \<noteq> None" "F (a - 1) = None" "\<forall>k\<ge>N. F k = None"
  shows "\<exists>b. seg_run F a b"
proof -
  define j where "j = (LEAST j::nat. F (a + int j) = None)"
  have ex: "F (a + int (nat (N - a))) = None" using assms(4) by simp
  have jn: "F (a + int j) = None" unfolding j_def using ex by (rule LeastI)
  have below: "\<And>i. i < j \<Longrightarrow> F (a + int i) \<noteq> None"
    unfolding j_def by (rule not_less_Least)
  have "j \<noteq> 0" using jn assms(1) by (intro notI) simp
  moreover have "j \<noteq> 1" using jn assms(2) by (intro notI) simp
  ultimately have j2: "2 \<le> j" by simp
  have "seg_run F a (a + int j - 1)"
    unfolding seg_run_def
  proof (intro conjI allI impI)
    show "a < a + int j - 1" using j2 by simp
    show "F (a - 1) = None" by (rule assms(3))
    show "F (a + int j - 1 + 1) = None" using jn by simp
    fix k assume k: "a \<le> k \<and> k \<le> a + int j - 1"
    then have "nat (k - a) < j" "k = a + int (nat (k - a))" by auto
    with below[of "nat (k - a)"] show "F k \<noteq> None" by simp
  qed
  then show ?thesis by blast
qed

lemma covers_across:
  "dir p = ACROSS \<Longrightarrow>
     covers p r c \<longleftrightarrow> r = row p \<and> col p \<le> c \<and> c < col p + int (length (answer p))"
proof -
  assume d: "dir p = ACROSS"
  have "(\<exists>i<length (answer p). c = col p + int i)
      \<longleftrightarrow> col p \<le> c \<and> c < col p + int (length (answer p))"
  proof
    assume "col p \<le> c \<and> c < col p + int (length (answer p))"
    then have "nat (c - col p) < length (answer p) \<and> c = col p + int (nat (c - col p))" by auto
    then show "\<exists>i<length (answer p). c = col p + int i" by blast
  qed auto
  then show ?thesis by (auto simp: covers_def cover_r_def cover_c_def d)
qed

lemma covers_down:
  "dir p = DOWN \<Longrightarrow>
     covers p r c \<longleftrightarrow> c = col p \<and> row p \<le> r \<and> r < row p + int (length (answer p))"
proof -
  assume d: "dir p = DOWN"
  have "(\<exists>i<length (answer p). r = row p + int i)
      \<longleftrightarrow> row p \<le> r \<and> r < row p + int (length (answer p))"
  proof
    assume "row p \<le> r \<and> r < row p + int (length (answer p))"
    then have "nat (r - row p) < length (answer p) \<and> r = row p + int (nat (r - row p))" by auto
    then show "\<exists>i<length (answer p). r = row p + int i" by blast
  qed auto
  then show ?thesis by (auto simp: covers_def cover_r_def cover_c_def d)
qed

lemma start_has_placement:
  assumes "square g sz" "runs_placed g ps" "is_start g r c"
  shows "\<exists>p\<in>set ps. row p = r \<and> col p = c"
proof -
  have far1: "\<forall>k\<ge>int sz. look g r k = None"
    using look_out[OF assms(1)] by (simp add: in_grid_def)
  have far2: "\<forall>k\<ge>int sz. look g k c = None"
    using look_out[OF assms(1)] by (simp add: in_grid_def)
  from assms(3) have l: "look g r c \<noteq> None"
    and cases: "(look g r (c - 1) = None \<and> look g r (c + 1) \<noteq> None)
              \<or> (look g (r - 1) c = None \<and> look g (r + 1) c \<noteq> None)"
    by (auto simp: is_start_def)
  from cases show ?thesis
  proof
    assume a: "look g r (c - 1) = None \<and> look g r (c + 1) \<noteq> None"
    have "\<exists>b. seg_run (\<lambda>k. look g r k) c b"
      by (rule seg_run_exists[where N = "int sz"]) (use l a far1 in auto)
    then obtain b where "hrun g r c b" by (auto simp: hrun_def)
    with assms(2) show ?thesis unfolding runs_placed_def by blast
  next
    assume a: "look g (r - 1) c = None \<and> look g (r + 1) c \<noteq> None"
    have "\<exists>b. seg_run (\<lambda>k. look g k c) r b"
      by (rule seg_run_exists[where N = "int sz"]) (use l a far2 in auto)
    then obtain b where "vrun g c r b" by (auto simp: vrun_def)
    with assms(2) show ?thesis unfolding runs_placed_def by blast
  qed
qed

text \<open>
  Claim C10. In the puzzle produced by any generation trial on words that fit the grid
  (hence also in the one the retry loop returns, which is such a trial), every
  maximal horizontal run of two or more letters is exactly the set of cells covered by
  an ACROSS placement, every maximal vertical run of two or more letters is exactly the
  set of cells covered by a DOWN placement, and every numbered cell is the start cell of
  a placement.
\<close>

theorem puzzle_runs_are_placements:
  assumes "fits sz ws"
  shows "(\<forall>r c1 c2. hrun (grid (generateCrosswordFromWords ws seed sz)) r c1 c2 \<longrightarrow>
            (\<exists>p\<in>set (placements (generateCrosswordFromWords ws seed sz)). dir p = ACROSS
               \<and> (\<forall>r' c'. covers p r' c' \<longleftrightarrow> r' = r \<and> c1 \<le> c' \<and> c' \<le> c2)))
       \<and> (\<forall>c r1 r2. vrun (grid (generateCrosswordFromWords ws seed sz)) c r1 r2 \<longrightarrow>
            (\<exists>p\<in>set (placements (generateCrosswordFromWords ws seed sz)). dir p = DOWN
               \<and> (\<forall>r' c'. covers p r' c' \<longleftrightarrow> c' = c \<and> r1 \<le> r' \<and> r' \<le> r2)))
       \<and> (\<forall>r c. look (numbers (generateCrosswordFromWords ws seed sz)) r c \<noteq> None \<longrightarrow>
            (\<exists>p\<in>set (placements (generateCrosswordFromWords ws seed sz)). row p = r \<and> col p = c))"
proof -
  let ?R = "generateCrosswordFromWords ws seed sz"
  have rp: "runs_placed (grid ?R) (placements ?R)" by (rule generate_runs[OF assms])
  have H: "\<exists>p\<in>set (placements ?R). dir p = ACROSS
               \<and> (\<forall>r' c'. covers p r' c' \<longleftrightarrow> r' = r \<and> c1 \<le> c' \<and> c' \<le> c2)"
    if "hrun (grid ?R) r c1 c2" for r c1 c2
  proof -
    from rp that obtain p where p: "p \<in> set (placements ?R)" "dir p = ACROSS" "row p = r"
      "col p = c1" "int (length (answer p)) = c2 - c1 + 1"
      unfolding runs_placed_def by blast
    have "\<forall>r' c'. covers p r' c' \<longleftrightarrow> r' = r \<and> c1 \<le> c' \<and> c' \<le> c2"
      using p by (auto simp: covers_across)
    with p show ?thesis by blast
  qed
  have V: "\<exists>p\<in>set (placements ?R). dir p = DOWN
               \<and> (\<forall>r' c'. covers p r' c' \<longleftrightarrow> c' = c \<and> r1 \<le> r' \<and> r' \<le> r2)"
    if "vrun (grid ?R) c r1 r2" for c r1 r2
  proof -
    from rp that obtain p where p: "p \<in> set (placements ?R)" "dir p = DOWN" "col p = c"
      "row p = r1" "int (length (answer p)) = r2 - r1 + 1"
      unfolding runs_placed_def by blast
    have "\<forall>r' c'. covers p r' c' \<longleftrightarrow> c' = c \<and> r1 \<le> r' \<and> r' \<le> r2"
      using p by (auto simp: covers_down)
    with p show ?thesis by blast
  qed
  have N: "\<exists>p\<in>set (placements ?R). row p = r \<and> col p = c"
    if n: "look (numbers ?R) r c \<noteq> None" for r c
  proof (cases "ws = []")
    case True
    with n show ?thesis by (auto simp: generate_empty look_def split: if_splits)
  next
    case False
    from generate_numbering[OF assms False, of seed] n
    have "square (grid ?R) sz" "is_start (grid ?R) r c" by auto
    then show ?thesis using rp by (blast intro: start_has_placement)
  qed
  show ?thesis using H V N by blast
qed

theorem puzzle_runs_are_placements_witness:
  "hrun (grid (generateCrosswordFromWords
      [\<lparr>answer = ''CAT'', clue = ''feline''\<rparr>, \<lparr>answer = ''OAT'', clue = ''cereal''\<rparr>] 1 5)) 2 1 3
   \<and> (\<exists>p\<in>set (placements (generateCrosswordFromWords
      [\<lparr>answer = ''CAT'', clue = ''feline''\<rparr>, \<lparr>answer = ''OAT'', clue = ''cereal''\<rparr>] 1 5)).
        dir p = ACROSS \<and> (\<forall>r' c'. covers p r' c' \<longleftrightarrow> r' = 2 \<and> 1 \<le> c' \<and> c' \<le> 3))"
proof -
  let ?W = "[\<lparr>answer = ''CAT'', clue = ''feline''\<rparr>, \<lparr>answer = ''OAT'', clue = ''cereal''\<rparr>]"
  let ?G = "[[None, None, None, Some CHR ''O'', None],
             [None, None, None, Some CHR ''A'', None],
             [None, Some CHR ''C'', Some CHR ''A'', Some CHR ''T'', None],
             [None, None, None, None, None],
             [None, None, None, None, None]]"
  have f: "fits 5 ?W" by (simp add: fits_def)
  have g: "grid (generateCrosswordFromWords ?W 1 5) = ?G" by code_simp
  have "hrun ?G 2 1 3"
    unfolding hrun_def seg_run_def
  proof (intro conjI allI impI)
    fix k :: int assume "1 \<le> k \<and> k \<le> 3"
    then have "k = 1 \<or> k = 2 \<or> k = 3" by arith
    then show "look ?G 2 k \<noteq> None" by (auto simp: look_def cell_at_def)
  qed (simp_all add: look_def cell_at_def)
  then have h: "hrun (grid (generateCrosswordFromWords ?W 1 5)) 2 1 3" by (simp only: g)
  have "\<exists>p\<in>set (placements (generateCrosswordFromWords ?W 1 5)).
        dir p = ACROSS \<and> (\<forall>r' c'. covers p r' c' \<longleftrightarrow> r' = 2 \<and> 1 \<le> c' \<and> c' \<le> 3)"
    by (rule puzzle_runs_are_placements[OF f, where seed = 1,
          THEN conjunct1, rule_format, OF h])
  with h show ?thesis by (rule conjI)
qed

end
